theory Spec2Isabelle
  imports Main
begin

section \<open>Scalar function spaces: degree-of-freedom maps\<close>

text \<open>
  A shallow embedding of \<^verbatim>\<open>bempp/api/space/scalar_spaces.py\<close>: the three space
  constructors and the numba kernel \<^verbatim>\<open>_compute_p1_dof_map\<close>. Arrays are lists,
  an index that Python would reject is the value \<open>Inl IndexError\<close>, and the one loop
  that iterates over a list while the list grows is a partial function in the option
  monad: \<open>None\<close> is a run that never leaves the loop.
\<close>

subsection \<open>Errors and NumPy indexing\<close>

datatype error = IndexError | ValueError

definition bind_err :: "error + 'a \<Rightarrow> ('a \<Rightarrow> error + 'b) \<Rightarrow> error + 'b" where
  "bind_err m f = (case m of Inl e \<Rightarrow> Inl e | Inr x \<Rightarrow> f x)"

text \<open>
  An index \<open>i\<close> into an axis of length \<open>n\<close>: \<open>0 \<le> i < n\<close> is the position itself, a
  negative \<open>i \<ge> -n\<close> counts from the end, anything else raises.
\<close>

definition py_index :: "nat \<Rightarrow> int \<Rightarrow> error + nat" where
  "py_index n i =
     (if 0 \<le> i \<and> i < int n then Inr (nat i)
      else if i < 0 \<and> - int n \<le> i then Inr (nat (int n + i))
      else Inl IndexError)"

definition getitem :: "'a list \<Rightarrow> int \<Rightarrow> error + 'a" where
  "getitem xs i = bind_err (py_index (length xs) i) (\<lambda>k. Inr (xs ! k))"

definition setitem :: "'a list \<Rightarrow> int \<Rightarrow> 'a \<Rightarrow> error + 'a list" where
  "setitem xs i v = bind_err (py_index (length xs) i) (\<lambda>k. Inr (xs[k := v]))"

definition getitem2 :: "'a list list \<Rightarrow> int \<Rightarrow> int \<Rightarrow> error + 'a" where
  "getitem2 a i j = bind_err (getitem a i) (\<lambda>row. getitem row j)"

definition setitem2 :: "'a list list \<Rightarrow> int \<Rightarrow> int \<Rightarrow> 'a \<Rightarrow> error + 'a list list" where
  "setitem2 a i j v =
     bind_err (getitem a i) (\<lambda>row.
     bind_err (setitem row j v) (\<lambda>row'.
     setitem a i row'))"

text \<open>The slice \<open>xs[a:b]\<close> with non-negative bounds; a slice clips and never raises.\<close>

definition py_slice :: "'a list \<Rightarrow> nat \<Rightarrow> nat \<Rightarrow> 'a list" where
  "py_slice xs a b = drop a (take b xs)"

text \<open>Stores into \<open>int32\<close> and \<open>uint32\<close> arrays keep the low 32 bits.\<close>

definition int32_of :: "int \<Rightarrow> int" where
  "int32_of x = (x + 2 ^ 31) mod 2 ^ 32 - 2 ^ 31"

definition uint32_of :: "int \<Rightarrow> int" where
  "uint32_of x = x mod 2 ^ 32"

text \<open>\<^verbatim>\<open>np.flatnonzero\<close> on a boolean array, which is also the \<^verbatim>\<open>enumerate\<close> loop
  that collects the indices of the true entries.\<close>

definition flatnonzero :: "bool list \<Rightarrow> nat list" where
  "flatnonzero bs = map fst (filter snd (enumerate 0 bs))"

text \<open>\<^verbatim>\<open>np.min\<close> of a one-dimensional array; the empty array raises.\<close>

definition np_min :: "int list \<Rightarrow> error + int" where
  "np_min xs = (case xs of [] \<Rightarrow> Inl ValueError | x # rest \<Rightarrow> Inr (fold min rest x))"

text \<open>\<^verbatim>\<open>a[idxs] = vals\<close> with an index array whose entries are in range.\<close>

definition scatter :: "'a list \<Rightarrow> nat list \<Rightarrow> 'a list \<Rightarrow> 'a list" where
  "scatter a idxs vals = fold (\<lambda>(i, v) acc. acc[i := v]) (zip idxs vals) a"

text \<open>
  \<^verbatim>\<open>a[mask] = rows\<close> with a boolean mask: the mask must have the length of the
  first axis, and the k-th true position receives the k-th row.
\<close>

fun mask_put :: "'a list \<Rightarrow> bool list \<Rightarrow> 'a list \<Rightarrow> 'a list" where
  "mask_put (x # xs) (b # bs) (v # vs) =
     (if b then v # mask_put xs bs vs else x # mask_put xs bs (v # vs))"
| "mask_put xs bs vs = xs"

definition mask_assign :: "'a list \<Rightarrow> bool list \<Rightarrow> 'a list \<Rightarrow> error + 'a list" where
  "mask_assign a sel rows =
     (if length sel \<noteq> length a then Inl IndexError
      else if length rows \<noteq> length (flatnonzero sel) then Inl ValueError
      else Inr (mask_put a sel rows))"

text \<open>\<^verbatim>\<open>a[mask] = c\<close> with a scalar, broadcast over every selected row.\<close>

definition mask_fill :: "'a list \<Rightarrow> bool list \<Rightarrow> 'a \<Rightarrow> error + 'a list" where
  "mask_fill a sel c =
     (if length sel \<noteq> length a then Inl IndexError
      else Inr (map (\<lambda>(x, b). if b then c else x) (zip a sel)))"

subsection \<open>The grid and the space\<close>

text \<open>
  Of the grid the code reads the \<open>3 \<times> n\<close> array \<open>elements\<close> (here the list of its
  columns, one triple of vertex indices per triangle) and the number of vertices.
\<close>

record grid_data =
  elements :: "(nat \<times> nat \<times> nat) list"
  number_of_vertices :: nat

definition number_of_elements :: "grid_data \<Rightarrow> nat" where
  "number_of_elements g = length (elements g)"

fun column :: "nat \<times> nat \<times> nat \<Rightarrow> nat list" where
  "column (a, b, c) = [a, b, c]"

text \<open>\<^verbatim>\<open>grid_data.elements[local_index, element_index]\<close>\<close>

definition elements_at :: "grid_data \<Rightarrow> int \<Rightarrow> int \<Rightarrow> error + nat" where
  "elements_at g local_index element_index =
     bind_err (getitem (elements g) element_index) (\<lambda>t. getitem (column t) local_index)"

text \<open>
  What the constructors hand to \<^verbatim>\<open>SpaceBuilder\<close>. The inverse map
  \<^verbatim>\<open>global2local\<close> and the gradient callback are left out: \<^verbatim>\<open>invert_local2global\<close>
  is not part of this file and no field below depends on them. The multipliers are
  \<open>float64\<close> entries that are only ever \<open>0.0\<close> or \<open>1.0\<close>, kept as integers.
\<close>

record space =
  space_codomain_dimension :: nat
  space_support :: "bool list"
  space_normal_multipliers :: "int list"
  space_order :: nat
  space_shapeset :: string
  space_identifier :: string
  space_local2global :: "int list list"
  space_local_multipliers :: "int list list"

subsection \<open>Piecewise constant and discontinuous piecewise linear spaces\<close>

text \<open>
  \<^verbatim>\<open>_process_segments\<close> is not part of this file; its two results, the support mask
  and the normal multipliers, are the arguments of the constructors.
\<close>

definition p0_discontinuous_function_space ::
  "grid_data \<Rightarrow> bool list \<Rightarrow> int list \<Rightarrow> error + space" where
  "p0_discontinuous_function_space grid support normal_multipliers =
     (let elements_in_support = flatnonzero support;
          support_size = length elements_in_support
      in
      bind_err (mask_assign (replicate (number_of_elements grid) [0]) support
                  (map (\<lambda>k. [uint32_of (int k)]) [0..<support_size])) (\<lambda>local2global.
      bind_err (mask_fill (replicate (number_of_elements grid) [0]) support [1]) (\<lambda>local_multipliers.
      Inr \<lparr> space_codomain_dimension = 1,
            space_support = support,
            space_normal_multipliers = normal_multipliers,
            space_order = 0,
            space_shapeset = ''p0_discontinuous'',
            space_identifier = ''p0_discontinuous'',
            space_local2global = local2global,
            space_local_multipliers = local_multipliers \<rparr>)))"

definition p1_discontinuous_function_space ::
  "grid_data \<Rightarrow> bool list \<Rightarrow> int list \<Rightarrow> error + space" where
  "p1_discontinuous_function_space grid support normal_multipliers =
     (let elements_in_support = flatnonzero support;
          support_size = length elements_in_support
      in
      bind_err (mask_assign (replicate (number_of_elements grid) [0, 0, 0]) support
                  (map (\<lambda>k. [uint32_of (int (3 * k)), uint32_of (int (3 * k + 1)),
                              uint32_of (int (3 * k + 2))]) [0..<support_size])) (\<lambda>local2global.
      bind_err (mask_fill (replicate (number_of_elements grid) [0, 0, 0]) support [1, 1, 1]) (\<lambda>local_multipliers.
      Inr \<lparr> space_codomain_dimension = 1,
            space_support = support,
            space_normal_multipliers = normal_multipliers,
            space_order = 1,
            space_shapeset = ''p1_discontinuous'',
            space_identifier = ''p1_discontinuous'',
            space_local2global = local2global,
            space_local_multipliers = local_multipliers \<rparr>)))"

text \<open>
  Modelled from the spec: the global DOF count of a discontinuous space, which
  \<^verbatim>\<open>SpaceBuilder\<close> derives outside this file. The spec gives it as the number of
  support elements times the local DOFs per element.
\<close>

definition discontinuous_global_dof_count :: "bool list \<Rightarrow> nat \<Rightarrow> nat" where
  "discontinuous_global_dof_count support local_dofs = length (flatnonzero support) * local_dofs"

text \<open>The global indices that occur at a position with multiplier 1, in scan order.\<close>

definition active_dofs :: "int list list \<Rightarrow> int list list \<Rightarrow> int list" where
  "active_dofs local2global local_multipliers =
     concat (map (\<lambda>(row, ms). map fst (filter (\<lambda>(d, m). m = 1) (zip row ms)))
                 (zip local2global local_multipliers))"

subsection \<open>The continuous piecewise linear space\<close>

text \<open>\<^verbatim>\<open>find_index\<close>: the first position of a value, or \<open>-1\<close>.\<close>

fun find_index_from :: "nat \<Rightarrow> 'a list \<Rightarrow> 'a \<Rightarrow> int" where
  "find_index_from index [] target = - 1"
| "find_index_from index (val # rest) target =
     (if val = target then int index else find_index_from (index + 1) rest target)"

definition find_index :: "'a list \<Rightarrow> 'a \<Rightarrow> int" where
  "find_index array target = find_index_from 0 array target"

text \<open>\<^verbatim>\<open>[n for n in neighbors if not support[n]]\<close>\<close>

fun non_support :: "bool list \<Rightarrow> nat list \<Rightarrow> error + nat list" where
  "non_support support [] = Inr []"
| "non_support support (n # ns) =
     bind_err (getitem support (int n)) (\<lambda>b.
     bind_err (non_support support ns) (\<lambda>rest.
     Inr (if \<not> b then n # rest else rest)))"

text \<open>The variables of the first loop: the working list, the provisional map
  (\<open>int32\<close>, \<open>-1\<close> for "no vertex") and the vertex flags.\<close>

record pass1 =
  elements_in_support :: "nat list"
  local2global :: "int list list"
  vertex_is_dof :: "bool list"

text \<open>The loop over \<open>en\<close> that writes the vertex into each non-support neighbour.\<close>

fun write_neighbors :: "grid_data \<Rightarrow> nat \<Rightarrow> nat list \<Rightarrow> int list list \<Rightarrow> error + int list list" where
  "write_neighbors g vertex [] l2g = Inr l2g"
| "write_neighbors g vertex (en # ens) l2g =
     bind_err (getitem (elements g) (int en)) (\<lambda>t.
     bind_err (setitem2 l2g (int en) (find_index (column t) vertex) (int32_of (int vertex))) (\<lambda>l2g'.
     write_neighbors g vertex ens l2g'))"

text \<open>The body of the inner loop, for one corner of one element.\<close>

definition visit_corner ::
  "grid_data \<Rightarrow> bool list \<Rightarrow> bool \<Rightarrow> bool \<Rightarrow> nat list \<Rightarrow> nat list \<Rightarrow> nat \<Rightarrow> nat \<Rightarrow> pass1
     \<Rightarrow> error + pass1" where
  "visit_corner g support include_boundary_dofs ensure_global_continuity
       vertex_neighbors index_ptr element_index local_index s =
     bind_err (elements_at g (int local_index) (int element_index)) (\<lambda>vertex.
     bind_err (getitem index_ptr (int vertex)) (\<lambda>lo.
     bind_err (getitem index_ptr (int vertex + 1)) (\<lambda>hi.
     bind_err (non_support support (py_slice vertex_neighbors lo hi)) (\<lambda>non_support_neighbors.
     bind_err
       (if include_boundary_dofs \<or> length non_support_neighbors = 0 then
          bind_err (setitem2 (local2global s) (int element_index) (int local_index)
                      (int32_of (int vertex))) (\<lambda>l2g.
          bind_err (setitem (vertex_is_dof s) (int vertex) True) (\<lambda>vid.
          Inr (s\<lparr>local2global := l2g, vertex_is_dof := vid\<rparr>)))
        else Inr s) (\<lambda>s1.
     if length non_support_neighbors > 0 \<and> ensure_global_continuity \<and> include_boundary_dofs then
       bind_err (write_neighbors g vertex non_support_neighbors (local2global s1)) (\<lambda>l2g.
       Inr (s1\<lparr>elements_in_support := elements_in_support s1 @ non_support_neighbors,
               local2global := l2g\<rparr>))
     else Inr s1)))))"

definition visit_element ::
  "grid_data \<Rightarrow> bool list \<Rightarrow> bool \<Rightarrow> bool \<Rightarrow> nat list \<Rightarrow> nat list \<Rightarrow> nat \<Rightarrow> pass1
     \<Rightarrow> error + pass1" where
  "visit_element g support include_boundary_dofs ensure_global_continuity
       vertex_neighbors index_ptr element_index s =
     bind_err (visit_corner g support include_boundary_dofs ensure_global_continuity
                 vertex_neighbors index_ptr element_index 0 s) (\<lambda>s0.
     bind_err (visit_corner g support include_boundary_dofs ensure_global_continuity
                 vertex_neighbors index_ptr element_index 1 s0) (\<lambda>s1.
     visit_corner g support include_boundary_dofs ensure_global_continuity
                 vertex_neighbors index_ptr element_index 2 s1))"

text \<open>
  \<^verbatim>\<open>for element_index in elements_in_support\<close>: the iterator holds a position
  \<open>i\<close> and stops when \<open>i\<close> reaches the current length of the list, which the body may
  have extended. \<open>None\<close> is the loop that never stops.
\<close>

partial_function (option) first_pass ::
  "grid_data \<Rightarrow> bool list \<Rightarrow> bool \<Rightarrow> bool \<Rightarrow> nat list \<Rightarrow> nat list \<Rightarrow> nat \<Rightarrow> pass1
     \<Rightarrow> (error + pass1) option" where
  "first_pass g support include_boundary_dofs ensure_global_continuity
       vertex_neighbors index_ptr i s =
     (if i < length (elements_in_support s) then
        (case visit_element g support include_boundary_dofs ensure_global_continuity
                vertex_neighbors index_ptr (elements_in_support s ! i) s of
           Inl e \<Rightarrow> Some (Inl e)
         | Inr s' \<Rightarrow> first_pass g support include_boundary_dofs ensure_global_continuity
                       vertex_neighbors index_ptr (i + 1) s')
      else Some (Inr s))"

declare first_pass.simps [code]

text \<open>The compaction: \<open>dofs\<close> is \<open>-1\<close> everywhere except at the flagged vertices,
  which are numbered in ascending order.\<close>

definition compact_dofs :: "nat \<Rightarrow> bool list \<Rightarrow> int list" where
  "compact_dofs nv vid =
     (let used_dofs = flatnonzero vid;
          global_dof_count = length used_dofs
      in scatter (replicate nv (- 1)) used_dofs (map int [0..<global_dof_count]))"

text \<open>The variables of the second loop.\<close>

record pass2 =
  support_final :: "bool list"
  local2global_final :: "int list list"
  local_multipliers :: "int list list"

definition assign_slot :: "int list list \<Rightarrow> int list \<Rightarrow> nat \<Rightarrow> nat \<Rightarrow> pass2 \<Rightarrow> error + pass2" where
  "assign_slot l2g dofs element_index local_index s =
     bind_err (getitem2 l2g (int element_index) (int local_index)) (\<lambda>vertex_index.
     if vertex_index = - 1 then Inr s
     else
       bind_err (getitem dofs vertex_index) (\<lambda>mapped_dof.
       bind_err (setitem (support_final s) (int element_index) True) (\<lambda>sf.
       bind_err (setitem2 (local2global_final s) (int element_index) (int local_index)
                   (uint32_of mapped_dof)) (\<lambda>l2gf.
       bind_err (setitem2 (local_multipliers s) (int element_index) (int local_index) 1) (\<lambda>lm.
       Inr (s\<lparr>support_final := sf, local2global_final := l2gf, local_multipliers := lm\<rparr>))))))"

definition fill_slot :: "int list list \<Rightarrow> int \<Rightarrow> nat \<Rightarrow> nat \<Rightarrow> pass2 \<Rightarrow> error + pass2" where
  "fill_slot l2g min_dof element_index local_index s =
     bind_err (getitem2 l2g (int element_index) (int local_index)) (\<lambda>vertex_index.
     if vertex_index = - 1 then
       bind_err (setitem2 (local2global_final s) (int element_index) (int local_index) min_dof)
         (\<lambda>l2gf. Inr (s\<lparr>local2global_final := l2gf\<rparr>))
     else Inr s)"

definition finish_element :: "int list list \<Rightarrow> int list \<Rightarrow> nat \<Rightarrow> pass2 \<Rightarrow> error + pass2" where
  "finish_element l2g dofs element_index s =
     bind_err (assign_slot l2g dofs element_index 0 s) (\<lambda>s0.
     bind_err (assign_slot l2g dofs element_index 1 s0) (\<lambda>s1.
     bind_err (assign_slot l2g dofs element_index 2 s1) (\<lambda>s2.
     bind_err (getitem (local2global_final s2) (int element_index)) (\<lambda>row.
     bind_err (np_min row) (\<lambda>min_dof.
     bind_err (fill_slot l2g min_dof element_index 0 s2) (\<lambda>t0.
     bind_err (fill_slot l2g min_dof element_index 1 t0) (\<lambda>t1.
     fill_slot l2g min_dof element_index 2 t1)))))))"

fun second_pass :: "int list list \<Rightarrow> int list \<Rightarrow> nat list \<Rightarrow> pass2 \<Rightarrow> error + pass2" where
  "second_pass l2g dofs [] s = Inr s"
| "second_pass l2g dofs (element_index # rest) s =
     bind_err (finish_element l2g dofs element_index s) (\<lambda>s'. second_pass l2g dofs rest s')"

text \<open>
  The whole of \<^verbatim>\<open>_compute_p1_dof_map\<close>, keeping every local variable: the state
  after the first loop, \<open>global_dof_count\<close>, and the state after the second loop.
\<close>

definition initial_pass1 :: "grid_data \<Rightarrow> bool list \<Rightarrow> pass1" where
  "initial_pass1 g support =
     \<lparr> elements_in_support = flatnonzero support,
       local2global = replicate (number_of_elements g) [- 1, - 1, - 1],
       vertex_is_dof = replicate (number_of_vertices g) False \<rparr>"

definition initial_pass2 :: "grid_data \<Rightarrow> pass2" where
  "initial_pass2 g =
     \<lparr> support_final = replicate (number_of_elements g) False,
       local2global_final = replicate (number_of_elements g) [0, 0, 0],
       local_multipliers = replicate (number_of_elements g) [0, 0, 0] \<rparr>"

definition compute_p1_dof_map_locals ::
  "grid_data \<Rightarrow> bool list \<Rightarrow> bool \<Rightarrow> bool \<Rightarrow> nat list \<Rightarrow> nat list
     \<Rightarrow> (error + pass1 \<times> nat \<times> pass2) option" where
  "compute_p1_dof_map_locals g support include_boundary_dofs ensure_global_continuity
       vertex_neighbors index_ptr =
     (case first_pass g support include_boundary_dofs ensure_global_continuity
             vertex_neighbors index_ptr 0 (initial_pass1 g support) of
        None \<Rightarrow> None
      | Some (Inl e) \<Rightarrow> Some (Inl e)
      | Some (Inr s) \<Rightarrow>
          Some (bind_err
                  (second_pass (local2global s)
                     (compact_dofs (number_of_vertices g) (vertex_is_dof s))
                     (elements_in_support s) (initial_pass2 g))
                  (\<lambda>s2. Inr (s, length (flatnonzero (vertex_is_dof s)), s2))))"

definition compute_p1_dof_map ::
  "grid_data \<Rightarrow> bool list \<Rightarrow> bool \<Rightarrow> bool \<Rightarrow> nat list \<Rightarrow> nat list
     \<Rightarrow> (error + int list list \<times> int list list) option" where
  "compute_p1_dof_map g support include_boundary_dofs ensure_global_continuity
       vertex_neighbors index_ptr =
     map_option (map_sum id (\<lambda>(s, global_dof_count, s2). (local2global_final s2, local_multipliers s2)))
       (compute_p1_dof_map_locals g support include_boundary_dofs ensure_global_continuity
          vertex_neighbors index_ptr)"

text \<open>The list of vertex neighbours that the constructor builds from the elements.\<close>

fun append_incident :: "nat \<Rightarrow> nat list \<Rightarrow> nat list list \<Rightarrow> error + nat list list" where
  "append_incident index [] vn = Inr vn"
| "append_incident index (vertex # rest) vn =
     bind_err (getitem vn (int vertex)) (\<lambda>l.
     bind_err (setitem vn (int vertex) (l @ [index])) (\<lambda>vn'.
     append_incident index rest vn'))"

fun collect_neighbors :: "nat \<Rightarrow> (nat \<times> nat \<times> nat) list \<Rightarrow> nat list list \<Rightarrow> error + nat list list" where
  "collect_neighbors index [] vn = Inr vn"
| "collect_neighbors index (t # ts) vn =
     bind_err (append_incident index (column t) vn) (\<lambda>vn'. collect_neighbors (index + 1) ts vn')"

text \<open>
  Modelled from the spec: \<^verbatim>\<open>serialise_list_of_lists\<close> of \<^verbatim>\<open>bempp.api.utils.helpers\<close>,
  which is not part of this file. It returns the concatenated lists and the offsets,
  one more than there are lists, such that list \<open>v\<close> occupies
  \<open>values[offset[v] : offset[v+1]]\<close>.
\<close>

fun offsets_from :: "nat \<Rightarrow> 'a list list \<Rightarrow> nat list" where
  "offsets_from start [] = [start]"
| "offsets_from start (l # ls) = start # offsets_from (start + length l) ls"

definition serialise_list_of_lists :: "'a list list \<Rightarrow> 'a list \<times> nat list" where
  "serialise_list_of_lists ls = (concat ls, offsets_from 0 ls)"

definition p1_continuous_function_space ::
  "grid_data \<Rightarrow> bool list \<Rightarrow> int list \<Rightarrow> bool \<Rightarrow> bool \<Rightarrow> (error + space) option" where
  "p1_continuous_function_space grid support normal_multipliers
       include_boundary_dofs ensure_global_continuity =
     (case collect_neighbors 0 (elements grid) (replicate (number_of_vertices grid) []) of
        Inl e \<Rightarrow> Some (Inl e)
      | Inr neighbor_lists \<Rightarrow>
          (case serialise_list_of_lists neighbor_lists of (vertex_neighbors, index_ptr) \<Rightarrow>
             map_option (map_sum id (\<lambda>(local2global, local_multipliers).
                 \<lparr> space_codomain_dimension = 1,
                   space_support = support,
                   space_normal_multipliers = normal_multipliers,
                   space_order = 1,
                   space_shapeset = ''p1_discontinuous'',
                   space_identifier = ''p1_continuous'',
                   space_local2global = local2global,
                   space_local_multipliers = local_multipliers \<rparr>))
               (compute_p1_dof_map grid support include_boundary_dofs ensure_global_continuity
                  vertex_neighbors index_ptr)))"

subsection \<open>Concrete grids\<close>

text \<open>Two triangles \<open>{0,1,2}\<close> and \<open>{1,2,3}\<close> that share the edge \<open>1-2\<close>.\<close>

definition mesh2 :: grid_data where
  "mesh2 = \<lparr> elements = [(0, 1, 2), (1, 2, 3)], number_of_vertices = 4 \<rparr>"

subsection \<open>Invariants of the two loops\<close>

text \<open>
  What holds of the provisional map and the vertex flags throughout the first loop: the
  arrays keep their shapes, and an entry of the map is \<open>-1\<close> or a flagged vertex.
\<close>

definition pass1_ok :: "grid_data \<Rightarrow> pass1 \<Rightarrow> bool" where
  "pass1_ok g s \<longleftrightarrow>
     length (local2global s) = number_of_elements g \<and>
     length (vertex_is_dof s) = number_of_vertices g \<and>
     (\<forall>row\<in>set (local2global s). length row = 3 \<and>
        (\<forall>p\<in>set row. p = - 1 \<or>
           (0 \<le> p \<and> p < int (number_of_vertices g) \<and> vertex_is_dof s ! nat p)))"

text \<open>
  What the second loop relies on (every provisional entry is \<open>-1\<close> or a vertex with a
  compacted index below the count) and what it maintains: a slot with multiplier 1 holds
  an index below the count, and a row without any vertex stays all zero.
\<close>

definition dofs_ok :: "grid_data \<Rightarrow> int list list \<Rightarrow> int list \<Rightarrow> nat \<Rightarrow> bool" where
  "dofs_ok g l2g dofs count \<longleftrightarrow>
     length l2g = number_of_elements g \<and>
     length dofs = number_of_vertices g \<and>
     int count \<le> 2 ^ 32 \<and>
     (\<forall>row\<in>set l2g. length row = 3 \<and>
        (\<forall>p\<in>set row. p = - 1 \<or>
           (0 \<le> p \<and> p < int (number_of_vertices g) \<and>
            0 \<le> dofs ! nat p \<and> dofs ! nat p < int count)))"

definition pass2_ok :: "grid_data \<Rightarrow> int list list \<Rightarrow> nat \<Rightarrow> pass2 \<Rightarrow> bool" where
  "pass2_ok g l2g count s \<longleftrightarrow>
     length (support_final s) = number_of_elements g \<and>
     length (local2global_final s) = number_of_elements g \<and>
     length (local_multipliers s) = number_of_elements g \<and>
     (\<forall>e<number_of_elements g.
        length (local2global_final s ! e) = 3 \<and>
        length (local_multipliers s ! e) = 3 \<and>
        (\<forall>l<3. local_multipliers s ! e ! l = 1 \<longrightarrow>
           l2g ! e ! l \<noteq> - 1 \<and>
           0 \<le> local2global_final s ! e ! l \<and> local2global_final s ! e ! l < int count) \<and>
        (l2g ! e = [- 1, - 1, - 1] \<longrightarrow>
           local2global_final s ! e = [0, 0, 0] \<and> local_multipliers s ! e = [0, 0, 0]))"

subsection \<open>The local variables of a constructor call\<close>

text \<open>
  The local variables of \<^verbatim>\<open>_compute_p1_dof_map\<close> when it is called the way
  \<^verbatim>\<open>p1_continuous_function_space\<close> calls it, on the neighbour lists built from the
  grid.
\<close>

definition p1_continuous_locals ::
  "grid_data \<Rightarrow> bool list \<Rightarrow> bool \<Rightarrow> bool \<Rightarrow> (error + pass1 \<times> nat \<times> pass2) option" where
  "p1_continuous_locals grid support include_boundary_dofs ensure_global_continuity =
     (case collect_neighbors 0 (elements grid) (replicate (number_of_vertices grid) []) of
        Inl e \<Rightarrow> Some (Inl e)
      | Inr neighbor_lists \<Rightarrow>
          (case serialise_list_of_lists neighbor_lists of (vertex_neighbors, index_ptr) \<Rightarrow>
             compute_p1_dof_map_locals grid support include_boundary_dofs ensure_global_continuity
               vertex_neighbors index_ptr))"

subsection \<open>More concrete grids\<close>

text \<open>A triangle \<open>{0,1,2}\<close> with one neighbour across each of its three edges.\<close>

definition mesh_star :: grid_data where
  "mesh_star = \<lparr> elements = [(0, 1, 2), (0, 1, 3), (1, 2, 4), (2, 0, 5)], number_of_vertices = 6 \<rparr>"

text \<open>
  Two triangles \<open>{0,2,3}\<close> and \<open>{1,2,3}\<close> of the support and a third triangle
  \<open>{1,4,5}\<close> outside it that touches vertex 1.
\<close>

definition mesh_fill :: grid_data where
  "mesh_fill = \<lparr> elements = [(0, 2, 3), (1, 2, 3), (1, 4, 5)], number_of_vertices = 6 \<rparr>"

subsection \<open>The state of a loop that feeds itself\<close>

text \<open>
  On \<open>mesh2\<close> with only element 0 in the support: the iterator is at a position
  \<open>i\<close> inside the working list and everything after position 0 is element 1.
\<close>

definition growing :: "nat \<Rightarrow> pass1 \<Rightarrow> bool" where
  "growing i s \<longleftrightarrow>
     0 < i \<and> i < length (elements_in_support s) \<and>
     (\<forall>j. 0 < j \<and> j < length (elements_in_support s) \<longrightarrow> elements_in_support s ! j = 1) \<and>
     length (local2global s) = 2 \<and> length (local2global s ! 1) = 3 \<and>
     length (vertex_is_dof s) = 4"

text \<open>Two states of the second loop that agree on the two arrays the function returns.\<close>

definition same_outputs :: "pass2 \<Rightarrow> pass2 \<Rightarrow> bool" where
  "same_outputs s t \<longleftrightarrow>
     local2global_final s = local2global_final t \<and>
     local_multipliers s = local_multipliers t \<and>
     length (support_final s) = length (support_final t)"

subsection \<open>Counting vertices, and well-formed inputs\<close>

text \<open>
  The count of C4 in the spec's words: the elements incident to a vertex, and the
  vertices whose incident elements are all in the support. A vertex without any
  incident element is among them.
\<close>

definition incident_elements :: "grid_data \<Rightarrow> nat \<Rightarrow> nat list" where
  "incident_elements g v =
     filter (\<lambda>e. v \<in> set (column (elements g ! e))) [0..<number_of_elements g]"

definition all_incident_in_support :: "grid_data \<Rightarrow> bool list \<Rightarrow> nat \<Rightarrow> bool" where
  "all_incident_in_support g support v \<longleftrightarrow> (\<forall>e\<in>set (incident_elements g v). support ! e)"

definition fully_supported_vertex_count :: "grid_data \<Rightarrow> bool list \<Rightarrow> nat" where
  "fully_supported_vertex_count g support =
     length (filter (all_incident_in_support g support) [0..<number_of_vertices g])"

text \<open>The same count over the vertices that belong to at least one element.\<close>

definition used_fully_supported_vertex_count :: "grid_data \<Rightarrow> bool list \<Rightarrow> nat" where
  "used_fully_supported_vertex_count g support =
     length (filter (\<lambda>v. incident_elements g v \<noteq> [] \<and> all_incident_in_support g support v)
               [0..<number_of_vertices g])"

text \<open>One triangle and a fourth vertex that belongs to no element.\<close>

definition mesh_iso :: grid_data where
  "mesh_iso = \<lparr> elements = [(0, 1, 2)], number_of_vertices = 4 \<rparr>"

text \<open>
  A grid whose vertex indices are in range and fit the \<open>int32\<close> provisional map, and
  neighbour arrays that list, for every vertex, the elements that have it as a corner.
\<close>

definition valid_grid :: "grid_data \<Rightarrow> bool" where
  "valid_grid g \<longleftrightarrow>
     (\<forall>t\<in>set (elements g). \<forall>v\<in>set (column t). v < number_of_vertices g) \<and>
     number_of_vertices g \<le> 2 ^ 31"

definition adjacency_ok :: "grid_data \<Rightarrow> nat list \<Rightarrow> nat list \<Rightarrow> bool" where
  "adjacency_ok g vn ip \<longleftrightarrow>
     length ip = number_of_vertices g + 1 \<and>
     (\<forall>v<number_of_vertices g.
        set (py_slice vn (ip ! v) (ip ! (v + 1))) = set (incident_elements g v))"

text \<open>The list \<open>non_support_neighbors\<close> of a vertex, when no index is out of range.\<close>

definition non_support_neighbors :: "bool list \<Rightarrow> nat list \<Rightarrow> nat list \<Rightarrow> nat \<Rightarrow> nat list" where
  "non_support_neighbors support vn ip v =
     filter (\<lambda>n. \<not> support ! n) (py_slice vn (ip ! v) (ip ! (v + 1)))"

text \<open>
  With both flags set, visiting an element appends the non-support neighbours of its
  three corners. The loop feeds itself when some element at or after the iterator
  appends at least one element.
\<close>

definition extension :: "grid_data \<Rightarrow> bool list \<Rightarrow> nat list \<Rightarrow> nat list \<Rightarrow> nat \<Rightarrow> nat list" where
  "extension g support vn ip e =
     non_support_neighbors support vn ip (column (elements g ! e) ! 0) @
     non_support_neighbors support vn ip (column (elements g ! e) ! 1) @
     non_support_neighbors support vn ip (column (elements g ! e) ! 2)"

definition feeding :: "grid_data \<Rightarrow> bool list \<Rightarrow> nat list \<Rightarrow> nat list \<Rightarrow> nat \<Rightarrow> pass1 \<Rightarrow> bool" where
  "feeding g support vn ip i s \<longleftrightarrow>
     pass1_ok g s \<and>
     (\<forall>e\<in>set (elements_in_support s). e < number_of_elements g) \<and>
     (\<exists>j\<ge>i. j < length (elements_in_support s) \<and>
          extension g support vn ip (elements_in_support s ! j) \<noteq> [])"

section \<open>Basic facts about indexing\<close>

lemma bind_err_Inl [simp]: "bind_err (Inl e) f = Inl e"
  by (simp add: bind_err_def)

lemma bind_err_Inr [simp]: "bind_err (Inr x) f = f x"
  by (simp add: bind_err_def)

lemma bind_err_eq_Inr: "bind_err m f = Inr y \<longleftrightarrow> (\<exists>x. m = Inr x \<and> f x = Inr y)"
  by (cases m) simp_all

lemma py_index_nat [simp]:
  "py_index n (int k) = (if k < n then Inr k else Inl IndexError)"
  by (simp add: py_index_def)

lemma py_index_Inr: "py_index n i = Inr k \<Longrightarrow> k < n"
  by (auto simp: py_index_def split: if_splits)

lemma getitem_nat [simp]:
  "getitem xs (int k) = (if k < length xs then Inr (xs ! k) else Inl IndexError)"
  by (simp add: getitem_def)

lemma setitem_nat [simp]:
  "setitem xs (int k) v = (if k < length xs then Inr (xs[k := v]) else Inl IndexError)"
  by (simp add: setitem_def)

lemma getitem_Inr: "getitem xs i = Inr v \<Longrightarrow> \<exists>k<length xs. v = xs ! k"
  by (auto simp: getitem_def bind_err_eq_Inr dest: py_index_Inr)

lemma setitem_Inr: "setitem xs i v = Inr ys \<Longrightarrow> \<exists>k<length xs. ys = xs[k := v]"
  by (auto simp: setitem_def bind_err_eq_Inr dest: py_index_Inr)

lemma getitem2_nat [simp]:
  "getitem2 a (int i) (int j) =
     (if i < length a then if j < length (a ! i) then Inr (a ! i ! j) else Inl IndexError
      else Inl IndexError)"
  by (simp add: getitem2_def)

lemma setitem2_nat [simp]:
  "setitem2 a (int i) (int j) v =
     (if i < length a then
        if j < length (a ! i) then Inr (a[i := (a ! i)[j := v]]) else Inl IndexError
      else Inl IndexError)"
  by (simp add: setitem2_def)

lemma setitem2_Inr:
  "setitem2 a i j v = Inr b \<Longrightarrow> \<exists>e<length a. \<exists>k<length (a ! e). b = a[e := (a ! e)[k := v]]"
  by (fastforce simp: setitem2_def getitem_def setitem_def bind_err_eq_Inr dest: py_index_Inr)

lemma find_index_from_range:
  "target \<in> set array \<Longrightarrow>
     int index \<le> find_index_from index array target \<and>
     find_index_from index array target < int (index + length array) \<and>
     array ! (nat (find_index_from index array target) - index) = target"
proof (induction array arbitrary: index)
  case Nil
  then show ?case by simp
next
  case (Cons a array)
  show ?case
  proof (cases "a = target")
    case True
    then show ?thesis by simp
  next
    case False
    with Cons.prems have "target \<in> set array" by simp
    from Cons.IH [OF this, of "index + 1"] False show ?thesis
      by (auto simp: nat_diff_distrib Suc_diff_le nat_le_iff)
  qed
qed

lemma find_index_from_absent:
  "target \<notin> set array \<Longrightarrow> find_index_from index array target = - 1"
  by (induction array arbitrary: index) auto

lemma find_index_present:
  "target \<in> set array \<Longrightarrow>
     0 \<le> find_index array target \<and> find_index array target < int (length array) \<and>
     array ! nat (find_index array target) = target"
  using find_index_from_range [of target array 0] by (simp add: find_index_def)

lemma find_index_absent: "target \<notin> set array \<Longrightarrow> find_index array target = - 1"
  by (simp add: find_index_def find_index_from_absent)

lemma length_column [simp]: "length (column t) = 3"
  by (cases t) simp

section \<open>C9: the slot written in a neighbouring element\<close>

text \<open>
  C9. In the continuity-extension loop the vertex is written into row \<open>en\<close> at the
  position \<open>find_index\<close> returns. When the vertex is one of the three corners of
  element \<open>en\<close>, that position is 0, 1 or 2 and is the corner that holds the vertex.
  When it is not, \<open>find_index\<close> returns \<open>-1\<close> and the write does not fail: it lands
  on slot 2 through negative indexing.
\<close>

theorem find_index_slot:
  assumes en: "en < length (elements g)"
    and rows: "length l2g = length (elements g)" "length (l2g ! en) = 3"
  shows "(vertex \<in> set (column (elements g ! en)) \<longrightarrow>
            find_index (column (elements g ! en)) vertex \<in> {0, 1, 2} \<and>
            column (elements g ! en) ! nat (find_index (column (elements g ! en)) vertex) = vertex \<and>
            write_neighbors g vertex [en] l2g =
              Inr (l2g[en := (l2g ! en)[nat (find_index (column (elements g ! en)) vertex)
                                          := int32_of (int vertex)]])) \<and>
         (vertex \<notin> set (column (elements g ! en)) \<longrightarrow>
            find_index (column (elements g ! en)) vertex = - 1 \<and>
            write_neighbors g vertex [en] l2g =
              Inr (l2g[en := (l2g ! en)[2 := int32_of (int vertex)]]))"
proof (intro conjI impI)
  assume v: "vertex \<in> set (column (elements g ! en))"
  let ?k = "find_index (column (elements g ! en)) vertex"
  from find_index_present [OF v]
  have k: "0 \<le> ?k" "?k < 3" "column (elements g ! en) ! nat ?k = vertex" by simp_all
  then show "?k \<in> {0, 1, 2}" by auto
  show "column (elements g ! en) ! nat ?k = vertex" by (rule k)
  from k have "?k = int (nat ?k)" "nat ?k < 3" by simp_all
  then have "setitem2 l2g (int en) ?k (int32_of (int vertex))
      = Inr (l2g[en := (l2g ! en)[nat ?k := int32_of (int vertex)]])"
    using en rows by (metis setitem2_nat)
  then show "write_neighbors g vertex [en] l2g =
      Inr (l2g[en := (l2g ! en)[nat ?k := int32_of (int vertex)]])"
    using en by simp
next
  assume v: "vertex \<notin> set (column (elements g ! en))"
  then show k: "find_index (column (elements g ! en)) vertex = - 1"
    by (rule find_index_absent)
  have "setitem2 l2g (int en) (- 1) (int32_of (int vertex))
      = Inr (l2g[en := (l2g ! en)[2 := int32_of (int vertex)]])"
    using en rows by (simp add: setitem2_def setitem_def py_index_def)
  then show "write_neighbors g vertex [en] l2g =
      Inr (l2g[en := (l2g ! en)[2 := int32_of (int vertex)]])"
    using en k by simp
qed


theorem find_index_slot_witness:
  "find_index (column (elements mesh2 ! 1)) 2 \<in> {0, 1, 2} \<and>
   write_neighbors mesh2 2 [1] [[5, 6, 7], [- 1, - 1, - 1]] = Inr [[5, 6, 7], [- 1, 2, - 1]] \<and>
   find_index (column (elements mesh2 ! 1)) 0 = - 1 \<and>
   write_neighbors mesh2 0 [1] [[5, 6, 7], [- 1, - 1, - 1]] = Inr [[5, 6, 7], [- 1, - 1, 0]]"
  using find_index_slot [of 1 mesh2 "[[5, 6, 7], [- 1, - 1, - 1]]" 2]
    find_index_slot [of 1 mesh2 "[[5, 6, 7], [- 1, - 1, - 1]]" 0]
  by (simp add: mesh2_def int32_of_def find_index_def)

section \<open>C7: the continuity flag without boundary DOFs\<close>


lemma visit_corner_flag:
  "visit_corner g support False egc vn ip e l s = visit_corner g support False False vn ip e l s"
  by (simp add: visit_corner_def)

lemma visit_element_flag:
  "visit_element g support False egc vn ip e s = visit_element g support False False vn ip e s"
  by (simp add: visit_element_def visit_corner_flag [of _ _ egc])

lemma visit_corner_work:
  "\<not> (egc \<and> ibd) \<Longrightarrow> visit_corner g support ibd egc vn ip e l s = Inr s' \<Longrightarrow>
     elements_in_support s' = elements_in_support s"
  by (auto simp: visit_corner_def bind_err_eq_Inr split: if_splits)

lemma visit_element_work:
  "\<not> (egc \<and> ibd) \<Longrightarrow> visit_element g support ibd egc vn ip e s = Inr s' \<Longrightarrow>
     elements_in_support s' = elements_in_support s"
proof -
  assume f: "\<not> (egc \<and> ibd)" and v: "visit_element g support ibd egc vn ip e s = Inr s'"
  from v obtain s0 s1 where
    "visit_corner g support ibd egc vn ip e 0 s = Inr s0"
    "visit_corner g support ibd egc vn ip e 1 s0 = Inr s1"
    "visit_corner g support ibd egc vn ip e 2 s1 = Inr s'"
    by (auto simp: visit_element_def bind_err_eq_Inr)
  then show ?thesis
    using visit_corner_work [OF f] by metis
qed

lemma first_pass_flag:
  "first_pass g support False egc vn ip i s = first_pass g support False False vn ip i s"
proof (induction "length (elements_in_support s) - i" arbitrary: i s)
  case 0
  then show ?case by (simp add: first_pass.simps [of _ _ _ _ _ _ i s])
next
  case (Suc n)
  show ?case
  proof (cases "visit_element g support False False vn ip (elements_in_support s ! i) s")
    case (Inl e)
    then show ?thesis
      by (simp add: first_pass.simps [of _ _ _ _ _ _ i s] visit_element_flag [of _ _ egc])
  next
    case (Inr s')
    then have "elements_in_support s' = elements_in_support s"
      by (rule visit_element_work [rotated]) simp
    with Suc.hyps(2) have "n = length (elements_in_support s') - (i + 1)" by simp
    from Suc.hyps(1) [OF this] Inr show ?thesis
      by (simp add: first_pass.simps [of _ _ _ _ _ _ i s] visit_element_flag [of _ _ egc])
  qed
qed

text \<open>
  C7. With \<open>include_boundary_dofs = False\<close> the flag \<open>ensure_global_continuity\<close> has
  no effect: \<^verbatim>\<open>_compute_p1_dof_map\<close> returns the same two arrays (or raises the same
  error) whether the flag is set or not.
\<close>

theorem continuity_flag_without_boundary_dofs:
  "compute_p1_dof_map g support False True vertex_neighbors index_ptr =
   compute_p1_dof_map g support False False vertex_neighbors index_ptr"
  by (simp add: compute_p1_dof_map_def compute_p1_dof_map_locals_def first_pass_flag [of _ _ True])


theorem continuity_flag_without_boundary_dofs_witness:
  "compute_p1_dof_map mesh2 [True, False] False True [0, 0, 1, 0, 1, 1] [0, 1, 3, 5, 6] =
     Some (Inr ([[0, 0, 0], [0, 0, 0]], [[1, 0, 0], [0, 0, 0]])) \<and>
   compute_p1_dof_map mesh2 [True, False] False False [0, 0, 1, 0, 1, 1] [0, 1, 3, 5, 6] =
     Some (Inr ([[0, 0, 0], [0, 0, 0]], [[1, 0, 0], [0, 0, 0]]))"
proof -
  have "compute_p1_dof_map mesh2 [True, False] False False [0, 0, 1, 0, 1, 1] [0, 1, 3, 5, 6] =
     Some (Inr ([[0, 0, 0], [0, 0, 0]], [[1, 0, 0], [0, 0, 0]]))"
    by code_simp
  then show ?thesis
    using continuity_flag_without_boundary_dofs
      [of mesh2 "[True, False]" "[0, 0, 1, 0, 1, 1]" "[0, 1, 3, 5, 6]"]
    by simp
qed

section \<open>The first loop keeps its invariant\<close>

lemma int32_of_id: "0 \<le> x \<Longrightarrow> x < 2 ^ 31 \<Longrightarrow> int32_of x = x"
  by (simp add: int32_of_def)

lemma uint32_of_id: "0 \<le> x \<Longrightarrow> x < 2 ^ 32 \<Longrightarrow> uint32_of x = x"
  by (simp add: uint32_of_def)

lemma elements_at_Inr:
  "elements_at g (int l) (int e) = Inr v \<Longrightarrow>
     e < number_of_elements g \<and> l < 3 \<and> v = column (elements g ! e) ! l"
  by (auto simp: elements_at_def number_of_elements_def bind_err_eq_Inr split: if_splits)

lemma in_set_update_row:
  "row \<in> set (a[e := r]) \<Longrightarrow> row = r \<or> row \<in> set a"
  using set_update_subset_insert [of a e r] by auto

lemma mark_mono: "i < length xs \<Longrightarrow> xs ! i \<Longrightarrow> xs[v := True] ! i"
  by (cases "i = v") simp_all

lemma pass1_ok_mark:
  assumes ok: "pass1_ok g s"
    and e: "e < length (local2global s)" and k: "k < length (local2global s ! e)"
    and v: "v < number_of_vertices g" and nv: "number_of_vertices g \<le> 2 ^ 31"
  shows "pass1_ok g (s\<lparr>local2global := (local2global s)[e := (local2global s ! e)[k := int32_of (int v)]],
                        vertex_is_dof := (vertex_is_dof s)[v := True]\<rparr>)"
proof -
  let ?x = "int32_of (int v)"
  have x: "?x = int v" using v nv by (simp add: int32_of_id)
  have old: "local2global s ! e \<in> set (local2global s)" using e by simp
  have len: "length (vertex_is_dof s) = number_of_vertices g"
    using ok by (simp add: pass1_ok_def)
  have entry: "p = - 1 \<or> (0 \<le> p \<and> p < int (number_of_vertices g) \<and> (vertex_is_dof s)[v := True] ! nat p)"
    if "p \<in> set row" "row \<in> set (local2global s)" for p row
  proof -
    from ok that have "p = - 1 \<or> (0 \<le> p \<and> p < int (number_of_vertices g) \<and> vertex_is_dof s ! nat p)"
      by (auto simp: pass1_ok_def)
    then show ?thesis
    proof
      assume "p = - 1"
      then show ?thesis by simp
    next
      assume a: "0 \<le> p \<and> p < int (number_of_vertices g) \<and> vertex_is_dof s ! nat p"
      then have "nat p < length (vertex_is_dof s)" using len by linarith
      with a show ?thesis by (simp add: mark_mono)
    qed
  qed
  have new: "p = - 1 \<or> (0 \<le> p \<and> p < int (number_of_vertices g) \<and> (vertex_is_dof s)[v := True] ! nat p)"
    if "p \<in> set ((local2global s ! e)[k := ?x])" for p
  proof -
    from that have "p = ?x \<or> p \<in> set (local2global s ! e)"
      using set_update_subset_insert [of "local2global s ! e" k ?x] by auto
    then show ?thesis
    proof
      assume "p = ?x"
      then show ?thesis using x v len by simp
    next
      assume "p \<in> set (local2global s ! e)"
      then show ?thesis using entry old by blast
    qed
  qed
  have rowlen: "length row = 3" if "row \<in> set (local2global s)" for row
    using ok that by (simp add: pass1_ok_def)
  show ?thesis
    unfolding pass1_ok_def
  proof (intro conjI ballI)
    show "length (local2global (s\<lparr>local2global := (local2global s)[e := (local2global s ! e)[k := ?x]],
                        vertex_is_dof := (vertex_is_dof s)[v := True]\<rparr>)) = number_of_elements g"
      using ok by (simp add: pass1_ok_def)
    show "length (vertex_is_dof (s\<lparr>local2global := (local2global s)[e := (local2global s ! e)[k := ?x]],
                        vertex_is_dof := (vertex_is_dof s)[v := True]\<rparr>)) = number_of_vertices g"
      using len by simp
  next
    fix row
    assume "row \<in> set (local2global (s\<lparr>local2global := (local2global s)[e := (local2global s ! e)[k := ?x]],
                        vertex_is_dof := (vertex_is_dof s)[v := True]\<rparr>))"
    then have r: "row = (local2global s ! e)[k := ?x] \<or> row \<in> set (local2global s)"
      by (auto dest: in_set_update_row)
    then show "length row = 3" using rowlen old by auto
    fix p
    assume "p \<in> set row"
    with r show "p = - 1 \<or> (0 \<le> p \<and> p < int (number_of_vertices g) \<and>
        vertex_is_dof (s\<lparr>local2global := (local2global s)[e := (local2global s ! e)[k := ?x]],
                        vertex_is_dof := (vertex_is_dof s)[v := True]\<rparr>) ! nat p)"
      using new entry by auto
  qed
qed

lemma write_neighbors_rows:
  "write_neighbors g v ens l2g = Inr l2g' \<Longrightarrow>
     length l2g' = length l2g \<and>
     (\<forall>row'\<in>set l2g'. \<exists>row\<in>set l2g. length row' = length row \<and>
         set row' \<subseteq> insert (int32_of (int v)) (set row))"
proof (induction ens arbitrary: l2g)
  case Nil
  then show ?case by auto
next
  case (Cons en ens)
  from Cons.prems obtain t m where
    m: "setitem2 l2g (int en) (find_index (column t) v) (int32_of (int v)) = Inr m"
    and rest: "write_neighbors g v ens m = Inr l2g'"
    by (auto simp: bind_err_eq_Inr)
  from setitem2_Inr [OF m] obtain e k where
    e: "e < length l2g" and k: "k < length (l2g ! e)"
    and meq: "m = l2g[e := (l2g ! e)[k := int32_of (int v)]]"
    by blast
  have step: "\<exists>row\<in>set l2g. length r = length row \<and> set r \<subseteq> insert (int32_of (int v)) (set row)"
    if "r \<in> set m" for r
  proof -
    from that meq have "r = (l2g ! e)[k := int32_of (int v)] \<or> r \<in> set l2g"
      by (auto dest: in_set_update_row)
    then show ?thesis
    proof
      assume "r = (l2g ! e)[k := int32_of (int v)]"
      then show ?thesis
        using e set_update_subset_insert [of "l2g ! e" k "int32_of (int v)"]
        by (intro bexI [of _ "l2g ! e"]) auto
    next
      assume "r \<in> set l2g"
      then show ?thesis by auto
    qed
  qed
  from Cons.IH [OF rest] have len: "length l2g' = length m"
    and rows: "\<forall>row'\<in>set l2g'. \<exists>row\<in>set m. length row' = length row \<and>
         set row' \<subseteq> insert (int32_of (int v)) (set row)"
    by auto
  have "\<exists>row\<in>set l2g. length row' = length row \<and> set row' \<subseteq> insert (int32_of (int v)) (set row)"
    if "row' \<in> set l2g'" for row'
  proof -
    from rows that obtain r where r: "r \<in> set m" "length row' = length r"
      "set row' \<subseteq> insert (int32_of (int v)) (set r)" by blast
    from step [OF r(1)] obtain row where "row \<in> set l2g" "length r = length row"
      "set r \<subseteq> insert (int32_of (int v)) (set row)" by blast
    with r show ?thesis by (intro bexI [of _ row]) auto
  qed
  with len meq show ?case by simp
qed

lemma pass1_ok_write:
  assumes ok: "pass1_ok g s"
    and w: "write_neighbors g v ens (local2global s) = Inr l2g'"
    and v: "v < number_of_vertices g" and nv: "number_of_vertices g \<le> 2 ^ 31"
    and marked: "vertex_is_dof s ! v"
  shows "pass1_ok g (s\<lparr>elements_in_support := w', local2global := l2g'\<rparr>)"
proof -
  have x: "int32_of (int v) = int v" using v nv by (simp add: int32_of_id)
  from write_neighbors_rows [OF w] have len: "length l2g' = length (local2global s)"
    and rows: "\<forall>row'\<in>set l2g'. \<exists>row\<in>set (local2global s). length row' = length row \<and>
         set row' \<subseteq> insert (int v) (set row)"
    by (simp_all add: x)
  show ?thesis
    unfolding pass1_ok_def
  proof (intro conjI ballI)
    show "length (local2global (s\<lparr>elements_in_support := w', local2global := l2g'\<rparr>)) =
        number_of_elements g"
      using ok len by (simp add: pass1_ok_def)
    show "length (vertex_is_dof (s\<lparr>elements_in_support := w', local2global := l2g'\<rparr>)) =
        number_of_vertices g"
      using ok by (simp add: pass1_ok_def)
  next
    fix row'
    assume "row' \<in> set (local2global (s\<lparr>elements_in_support := w', local2global := l2g'\<rparr>))"
    then have "row' \<in> set l2g'" by simp
    with rows obtain row where row: "row \<in> set (local2global s)" "length row' = length row"
      "set row' \<subseteq> insert (int v) (set row)" by blast
    from ok row(1) have r3: "length row = 3"
      and old: "\<forall>p\<in>set row. p = - 1 \<or>
           (0 \<le> p \<and> p < int (number_of_vertices g) \<and> vertex_is_dof s ! nat p)"
      by (simp_all add: pass1_ok_def)
    show "length row' = 3" using row(2) r3 by simp
    fix p
    assume "p \<in> set row'"
    with row(3) have "p = int v \<or> p \<in> set row" by auto
    then show "p = - 1 \<or> (0 \<le> p \<and> p < int (number_of_vertices g) \<and>
        vertex_is_dof (s\<lparr>elements_in_support := w', local2global := l2g'\<rparr>) ! nat p)"
      using old v marked by auto
  qed
qed

lemma visit_corner_ok:
  assumes nv: "number_of_vertices g \<le> 2 ^ 31"
    and ok: "pass1_ok g s"
    and run: "visit_corner g support ibd egc vn ip e l s = Inr s'"
  shows "pass1_ok g s' \<and> e < number_of_elements g \<and>
         (\<exists>ext. elements_in_support s' = elements_in_support s @ ext)"
proof -
  from run obtain vertex lo hi nsn s1 where
    vertex: "elements_at g (int l) (int e) = Inr vertex"
    and s1: "(if ibd \<or> length nsn = 0 then
          bind_err (setitem2 (local2global s) (int e) (int l) (int32_of (int vertex))) (\<lambda>l2g.
          bind_err (setitem (vertex_is_dof s) (int vertex) True) (\<lambda>vid.
          Inr (s\<lparr>local2global := l2g, vertex_is_dof := vid\<rparr>)))
        else Inr s) = Inr s1"
    and fin: "(if length nsn > 0 \<and> egc \<and> ibd then
         bind_err (write_neighbors g vertex nsn (local2global s1)) (\<lambda>l2g.
         Inr (s1\<lparr>elements_in_support := elements_in_support s1 @ nsn, local2global := l2g\<rparr>))
       else Inr s1) = Inr s'"
    unfolding visit_corner_def bind_err_eq_Inr by blast
  from elements_at_Inr [OF vertex] have e: "e < number_of_elements g" by simp
  have len: "length (vertex_is_dof s) = number_of_vertices g"
    using ok by (simp add: pass1_ok_def)
  have ok1: "pass1_ok g s1" and w1: "elements_in_support s1 = elements_in_support s"
    and m1: "ibd \<longrightarrow> vertex < number_of_vertices g \<and> vertex_is_dof s1 ! vertex"
  proof -
    show "pass1_ok g s1"
    proof (cases "ibd \<or> length nsn = 0")
      case True
      with s1 obtain a b where a: "setitem2 (local2global s) (int e) (int l) (int32_of (int vertex)) = Inr a"
        and b: "setitem (vertex_is_dof s) (int vertex) True = Inr b"
        and eq: "s1 = s\<lparr>local2global := a, vertex_is_dof := b\<rparr>"
        by (auto simp: bind_err_eq_Inr)
      from a have "e < length (local2global s)" "l < length (local2global s ! e)"
        "a = (local2global s)[e := (local2global s ! e)[l := int32_of (int vertex)]]"
        by (auto split: if_splits)
      moreover from b len have "vertex < number_of_vertices g" "b = (vertex_is_dof s)[vertex := True]"
        by (auto split: if_splits)
      ultimately show ?thesis using pass1_ok_mark [OF ok _ _ _ nv, of e l vertex] eq by simp
    next
      case False
      with s1 ok show ?thesis by simp
    qed
    show "elements_in_support s1 = elements_in_support s"
      using s1 by (auto simp: bind_err_eq_Inr split: if_splits)
    show "ibd \<longrightarrow> vertex < number_of_vertices g \<and> vertex_is_dof s1 ! vertex"
      using s1 len by (auto simp: bind_err_eq_Inr split: if_splits)
  qed
  show ?thesis
  proof (cases "length nsn > 0 \<and> egc \<and> ibd")
    case True
    with fin obtain l2g' where w: "write_neighbors g vertex nsn (local2global s1) = Inr l2g'"
      and eq: "s' = s1\<lparr>elements_in_support := elements_in_support s1 @ nsn, local2global := l2g'\<rparr>"
      by (auto simp: bind_err_eq_Inr)
    from True m1 have "vertex < number_of_vertices g" "vertex_is_dof s1 ! vertex" by simp_all
    from pass1_ok_write [OF ok1 w this(1) nv this(2)] eq e w1 show ?thesis by simp
  next
    case False
    with fin have "s' = s1" by (auto split: if_splits)
    with ok1 w1 e show ?thesis by simp
  qed
qed

lemma visit_element_ok:
  assumes nv: "number_of_vertices g \<le> 2 ^ 31"
    and ok: "pass1_ok g s"
    and run: "visit_element g support ibd egc vn ip e s = Inr s'"
  shows "pass1_ok g s' \<and> e < number_of_elements g \<and>
         (\<exists>ext. elements_in_support s' = elements_in_support s @ ext)"
proof -
  from run obtain s0 s1 where
    c0: "visit_corner g support ibd egc vn ip e 0 s = Inr s0"
    and c1: "visit_corner g support ibd egc vn ip e 1 s0 = Inr s1"
    and c2: "visit_corner g support ibd egc vn ip e 2 s1 = Inr s'"
    by (auto simp: visit_element_def bind_err_eq_Inr)
  from visit_corner_ok [OF nv ok c0] obtain x0 where
    ok0: "pass1_ok g s0" and e: "e < number_of_elements g"
    and w0: "elements_in_support s0 = elements_in_support s @ x0" by blast
  from visit_corner_ok [OF nv ok0 c1] obtain x1 where
    ok1: "pass1_ok g s1" and w1: "elements_in_support s1 = elements_in_support s0 @ x1" by blast
  from visit_corner_ok [OF nv ok1 c2] obtain x2 where
    ok2: "pass1_ok g s'" and w2: "elements_in_support s' = elements_in_support s1 @ x2" by blast
  from w0 w1 w2 have "elements_in_support s' = elements_in_support s @ (x0 @ x1 @ x2)" by simp
  with ok2 e show ?thesis by blast
qed

lemma first_pass_ok:
  assumes run: "first_pass g support ibd egc vn ip i s = Some r"
  shows "number_of_vertices g \<le> 2 ^ 31 \<longrightarrow> pass1_ok g s \<longrightarrow>
         (\<forall>j<i. j < length (elements_in_support s) \<longrightarrow> elements_in_support s ! j < number_of_elements g) \<longrightarrow>
         (\<forall>s'. r = Inr s' \<longrightarrow>
            pass1_ok g s' \<and> (\<forall>e\<in>set (elements_in_support s'). e < number_of_elements g))"
proof (rule first_pass.raw_induct [where P = "\<lambda>g support ibd egc vn ip i s r.
         number_of_vertices g \<le> 2 ^ 31 \<longrightarrow> pass1_ok g s \<longrightarrow>
         (\<forall>j<i. j < length (elements_in_support s) \<longrightarrow> elements_in_support s ! j < number_of_elements g) \<longrightarrow>
         (\<forall>s'. r = Inr s' \<longrightarrow>
            pass1_ok g s' \<and> (\<forall>e\<in>set (elements_in_support s'). e < number_of_elements g))", OF _ run])
  fix f :: "grid_data \<Rightarrow> bool list \<Rightarrow> bool \<Rightarrow> bool \<Rightarrow> nat list \<Rightarrow> nat list \<Rightarrow> nat \<Rightarrow> pass1
     \<Rightarrow> (error + pass1) option"
    and g support ibd egc vn ip i s r
  assume IH: "\<And>g support ibd egc vn ip i s r. f g support ibd egc vn ip i s = Some r \<Longrightarrow>
         number_of_vertices g \<le> 2 ^ 31 \<longrightarrow> pass1_ok g s \<longrightarrow>
         (\<forall>j<i. j < length (elements_in_support s) \<longrightarrow> elements_in_support s ! j < number_of_elements g) \<longrightarrow>
         (\<forall>s'. r = Inr s' \<longrightarrow>
            pass1_ok g s' \<and> (\<forall>e\<in>set (elements_in_support s'). e < number_of_elements g))"
    and body: "(if i < length (elements_in_support s) then
        (case visit_element g support ibd egc vn ip (elements_in_support s ! i) s of
           Inl e \<Rightarrow> Some (Inl e)
         | Inr s' \<Rightarrow> f g support ibd egc vn ip (i + 1) s')
      else Some (Inr s)) = Some r"
  show "number_of_vertices g \<le> 2 ^ 31 \<longrightarrow> pass1_ok g s \<longrightarrow>
         (\<forall>j<i. j < length (elements_in_support s) \<longrightarrow> elements_in_support s ! j < number_of_elements g) \<longrightarrow>
         (\<forall>s'. r = Inr s' \<longrightarrow>
            pass1_ok g s' \<and> (\<forall>e\<in>set (elements_in_support s'). e < number_of_elements g))"
  proof (intro impI allI)
    fix s'
    assume nv: "number_of_vertices g \<le> 2 ^ 31" and ok: "pass1_ok g s"
      and seen: "\<forall>j<i. j < length (elements_in_support s) \<longrightarrow> elements_in_support s ! j < number_of_elements g"
      and r: "r = Inr s'"
    show "pass1_ok g s' \<and> (\<forall>e\<in>set (elements_in_support s'). e < number_of_elements g)"
    proof (cases "i < length (elements_in_support s)")
      case False
      with body r have "s' = s" by simp
      moreover from False seen have "\<forall>e\<in>set (elements_in_support s). e < number_of_elements g"
        by (auto simp: in_set_conv_nth)
      ultimately show ?thesis using ok by simp
    next
      case True
      show ?thesis
      proof (cases "visit_element g support ibd egc vn ip (elements_in_support s ! i) s")
        case (Inl err)
        with body True r show ?thesis by simp
      next
        case (Inr t)
        with body True have next_run: "f g support ibd egc vn ip (i + 1) t = Some r" by simp
        from visit_element_ok [OF nv ok Inr] obtain ext where
          okt: "pass1_ok g t" and ei: "elements_in_support s ! i < number_of_elements g"
          and wt: "elements_in_support t = elements_in_support s @ ext" by blast
        have "\<forall>j<i + 1. j < length (elements_in_support t) \<longrightarrow>
            elements_in_support t ! j < number_of_elements g"
        proof (intro allI impI)
          fix j assume "j < i + 1" "j < length (elements_in_support t)"
          then have "j < i \<or> j = i" by auto
          then show "elements_in_support t ! j < number_of_elements g"
            using seen ei True wt by (auto simp: nth_append)
        qed
        with IH [OF next_run] nv okt r show ?thesis by blast
      qed
    qed
  qed
qed

section \<open>Compaction of the flagged vertices\<close>


lemma flatnonzero_eq: "flatnonzero bs = filter (\<lambda>i. bs ! i) [0..<length bs]"
proof (induction bs rule: rev_induct)
  case Nil
  then show ?case by (simp add: flatnonzero_def)
next
  case (snoc b bs)
  have "filter (\<lambda>i. (bs @ [b]) ! i) [0..<length bs] = filter (\<lambda>i. bs ! i) [0..<length bs]"
    by (rule filter_cong) (simp_all add: nth_append)
  with snoc show ?case
    by (simp add: flatnonzero_def enumerate_append_eq)
qed

lemma set_flatnonzero: "set (flatnonzero bs) = {i. i < length bs \<and> bs ! i}"
  by (auto simp: flatnonzero_eq)

lemma distinct_flatnonzero: "distinct (flatnonzero bs)"
  by (simp add: flatnonzero_eq)

lemma length_flatnonzero_le: "length (flatnonzero bs) \<le> length bs"
  using length_filter_le [of "\<lambda>i. bs ! i" "[0..<length bs]"] by (simp add: flatnonzero_eq)

lemma length_scatter [simp]: "length (scatter a idxs vals) = length a"
proof -
  have "length (fold (\<lambda>(i, v) acc. acc[i := v]) ps a) = length a" for ps :: "(nat \<times> 'a) list"
    by (induction ps arbitrary: a) auto
  then show ?thesis by (simp add: scatter_def)
qed

lemma scatter_Cons [simp]:
  "scatter a (i # idxs) (v # vals) = scatter (a[i := v]) idxs vals"
  by (simp add: scatter_def)

lemma scatter_Nil [simp]: "scatter a [] vals = a"
  by (simp add: scatter_def)

lemma scatter_nth_notin:
  "length idxs = length vals \<Longrightarrow> i \<notin> set idxs \<Longrightarrow> scatter a idxs vals ! i = a ! i"
  by (induction idxs vals arbitrary: a rule: list_induct2) auto

lemma scatter_nth_in:
  "length idxs = length vals \<Longrightarrow> i \<in> set idxs \<Longrightarrow> i < length a \<Longrightarrow>
     scatter a idxs vals ! i \<in> set vals"
proof (induction idxs vals arbitrary: a rule: list_induct2)
  case Nil
  then show ?case by simp
next
  case (Cons x xs v vs)
  show ?case
  proof (cases "i \<in> set xs")
    case True
    with Cons.IH [of "a[x := v]"] Cons.prems show ?thesis by simp
  next
    case False
    with Cons.prems have "i = x" by simp
    with False Cons.hyps Cons.prems show ?thesis
      by (simp add: scatter_nth_notin)
  qed
qed

lemma length_compact_dofs [simp]: "length (compact_dofs nv vid) = nv"
  by (simp add: compact_dofs_def Let_def)

lemma compact_dofs_marked:
  assumes "length vid = nv" "v < nv" "vid ! v"
  shows "0 \<le> compact_dofs nv vid ! v \<and> compact_dofs nv vid ! v < int (length (flatnonzero vid))"
proof -
  from assms have "v \<in> set (flatnonzero vid)" by (simp add: set_flatnonzero)
  then have "compact_dofs nv vid ! v \<in> set (map int [0..<length (flatnonzero vid)])"
    using assms unfolding compact_dofs_def Let_def
    by (intro scatter_nth_in) simp_all
  then show ?thesis by auto
qed

section \<open>The second loop keeps its invariant and never raises\<close>

lemma dofs_ok_entry:
  assumes "dofs_ok g l2g dofs count" "e < number_of_elements g" "l < 3"
  shows "length (l2g ! e) = 3"
    and "l2g ! e ! l = - 1 \<or>
         (0 \<le> l2g ! e ! l \<and> l2g ! e ! l < int (length dofs) \<and>
          0 \<le> dofs ! nat (l2g ! e ! l) \<and> dofs ! nat (l2g ! e ! l) < int count)"
proof -
  from assms have row: "l2g ! e \<in> set l2g" by (simp add: dofs_ok_def)
  with assms(1) show len: "length (l2g ! e) = 3" by (simp add: dofs_ok_def)
  with assms(3) have "l2g ! e ! l \<in> set (l2g ! e)" by simp
  with assms(1) row show "l2g ! e ! l = - 1 \<or>
         (0 \<le> l2g ! e ! l \<and> l2g ! e ! l < int (length dofs) \<and>
          0 \<le> dofs ! nat (l2g ! e ! l) \<and> dofs ! nat (l2g ! e ! l) < int count)"
    unfolding dofs_ok_def by metis
qed

lemma getitem_int: "0 \<le> p \<Longrightarrow> p < int (length xs) \<Longrightarrow> getitem xs p = Inr (xs ! nat p)"
  by (simp add: getitem_def py_index_def)

lemma three_cases: "l < (3::nat) \<Longrightarrow> l = 0 \<or> l = 1 \<or> l = 2"
  by arith

lemma assign_slot_ok:
  assumes d: "dofs_ok g l2g dofs count"
    and ok: "pass2_ok g l2g count s"
    and e: "e < number_of_elements g" and l: "l < 3"
  shows "\<exists>s'. assign_slot l2g dofs e l s = Inr s' \<and> pass2_ok g l2g count s'"
proof -
  let ?p = "l2g ! e ! l"
  from d e have le: "e < length l2g" by (simp add: dofs_ok_def)
  from dofs_ok_entry [OF d e l] have l3: "length (l2g ! e) = 3"
    and p: "?p = - 1 \<or> (0 \<le> ?p \<and> ?p < int (length dofs) \<and>
          0 \<le> dofs ! nat ?p \<and> dofs ! nat ?p < int count)" by simp_all
  have get: "getitem2 l2g (int e) (int l) = Inr ?p"
    using le l3 l by simp
  show ?thesis
  proof (cases "?p = - 1")
    case True
    with get ok show ?thesis by (simp add: assign_slot_def)
  next
    case False
    let ?d = "dofs ! nat ?p"
    from False p have pv: "0 \<le> ?p" "?p < int (length dofs)" "0 \<le> ?d" "?d < int count" by simp_all
    from d have "int count \<le> 2 ^ 32" by (simp add: dofs_ok_def)
    with pv have u: "uint32_of ?d = ?d" by (simp add: uint32_of_id)
    from ok e have shapes: "e < length (support_final s)" "e < length (local2global_final s)"
      "e < length (local_multipliers s)" "length (local2global_final s ! e) = 3"
      "length (local_multipliers s ! e) = 3"
      by (simp_all add: pass2_ok_def)
    let ?s' = "s\<lparr>support_final := (support_final s)[e := True],
                local2global_final := (local2global_final s)[e := (local2global_final s ! e)[l := ?d]],
                local_multipliers := (local_multipliers s)[e := (local_multipliers s ! e)[l := 1]]\<rparr>"
    have run: "assign_slot l2g dofs e l s = Inr ?s'"
      using get False getitem_int [OF pv(1,2)] shapes l u by (simp add: assign_slot_def)
    have "pass2_ok g l2g count ?s'"
      unfolding pass2_ok_def
    proof (intro conjI allI impI)
      show "length (support_final ?s') = number_of_elements g"
        "length (local2global_final ?s') = number_of_elements g"
        "length (local_multipliers ?s') = number_of_elements g"
        using ok by (simp_all add: pass2_ok_def)
    next
      fix e' assume e': "e' < number_of_elements g"
      from ok e' have old: "length (local2global_final s ! e') = 3"
        "length (local_multipliers s ! e') = 3"
        "\<forall>l<3. local_multipliers s ! e' ! l = 1 \<longrightarrow>
           l2g ! e' ! l \<noteq> - 1 \<and>
           0 \<le> local2global_final s ! e' ! l \<and> local2global_final s ! e' ! l < int count"
        "l2g ! e' = [- 1, - 1, - 1] \<longrightarrow>
           local2global_final s ! e' = [0, 0, 0] \<and> local_multipliers s ! e' = [0, 0, 0]"
        by (simp_all add: pass2_ok_def)
      show "length (local2global_final ?s' ! e') = 3"
        using old(1) shapes by (cases "e' = e") simp_all
      show "length (local_multipliers ?s' ! e') = 3"
        using old(2) shapes by (cases "e' = e") simp_all
      {
        fix l' assume l': "l' < (3::nat)" and m: "local_multipliers ?s' ! e' ! l' = 1"
        show "l2g ! e' ! l' \<noteq> - 1"
        proof (cases "e' = e \<and> l' = l")
          case True
          with False show ?thesis by simp
        next
          case False
          with m shapes l' have "local_multipliers s ! e' ! l' = 1"
            by (cases "e' = e") (auto simp: nth_list_update)
          with old(3) l' show ?thesis by simp
        qed
        show "0 \<le> local2global_final ?s' ! e' ! l'"
        proof (cases "e' = e \<and> l' = l")
          case True
          with pv shapes l show ?thesis by simp
        next
          case False
          with m shapes l' have "local_multipliers s ! e' ! l' = 1"
            by (cases "e' = e") (auto simp: nth_list_update)
          with old(3) l' have "0 \<le> local2global_final s ! e' ! l'" by simp
          with False shapes l' show ?thesis
            by (cases "e' = e") (auto simp: nth_list_update)
        qed
        show "local2global_final ?s' ! e' ! l' < int count"
        proof (cases "e' = e \<and> l' = l")
          case True
          with pv shapes l show ?thesis by simp
        next
          case False
          with m shapes l' have "local_multipliers s ! e' ! l' = 1"
            by (cases "e' = e") (auto simp: nth_list_update)
          with old(3) l' have "local2global_final s ! e' ! l' < int count" by simp
          with False shapes l' show ?thesis
            by (cases "e' = e") (auto simp: nth_list_update)
        qed
      }
      {
        assume all: "l2g ! e' = [- 1, - 1, - 1]"
        have ne: "e' \<noteq> e"
        proof
          assume "e' = e"
          with all three_cases [OF l] have "?p = - 1" by auto
          with False show False by simp
        qed
        with all old(4) shapes show "local2global_final ?s' ! e' = [0, 0, 0]" by simp
        from ne all old(4) shapes show "local_multipliers ?s' ! e' = [0, 0, 0]" by simp
      }
    qed
    with run show ?thesis by blast
  qed
qed

lemma fill_slot_ok:
  assumes d: "dofs_ok g l2g dofs count"
    and ok: "pass2_ok g l2g count s"
    and e: "e < number_of_elements g" and l: "l < 3"
    and m: "l2g ! e = [- 1, - 1, - 1] \<longrightarrow> min_dof = 0"
  shows "\<exists>s'. fill_slot l2g min_dof e l s = Inr s' \<and> pass2_ok g l2g count s' \<and>
           local_multipliers s' = local_multipliers s"
proof -
  let ?p = "l2g ! e ! l"
  from d e have le: "e < length l2g" by (simp add: dofs_ok_def)
  from dofs_ok_entry(1) [OF d e l] have l3: "length (l2g ! e) = 3" .
  have get: "getitem2 l2g (int e) (int l) = Inr ?p"
    using le l3 l by simp
  show ?thesis
  proof (cases "?p = - 1")
    case False
    with get ok show ?thesis by (simp add: fill_slot_def)
  next
    case True
    from ok e have shapes: "e < length (local2global_final s)"
      "length (local2global_final s ! e) = 3"
      by (simp_all add: pass2_ok_def)
    let ?s' = "s\<lparr>local2global_final := (local2global_final s)[e := (local2global_final s ! e)[l := min_dof]]\<rparr>"
    have run: "fill_slot l2g min_dof e l s = Inr ?s'"
      using get True shapes l by (simp add: fill_slot_def)
    have "pass2_ok g l2g count ?s'"
      unfolding pass2_ok_def
    proof (intro conjI allI impI)
      show "length (support_final ?s') = number_of_elements g"
        "length (local2global_final ?s') = number_of_elements g"
        "length (local_multipliers ?s') = number_of_elements g"
        using ok by (simp_all add: pass2_ok_def)
    next
      fix e' assume e': "e' < number_of_elements g"
      from ok e' have old: "length (local2global_final s ! e') = 3"
        "length (local_multipliers s ! e') = 3"
        "\<forall>l<3. local_multipliers s ! e' ! l = 1 \<longrightarrow>
           l2g ! e' ! l \<noteq> - 1 \<and>
           0 \<le> local2global_final s ! e' ! l \<and> local2global_final s ! e' ! l < int count"
        "l2g ! e' = [- 1, - 1, - 1] \<longrightarrow>
           local2global_final s ! e' = [0, 0, 0] \<and> local_multipliers s ! e' = [0, 0, 0]"
        by (simp_all add: pass2_ok_def)
      show "length (local2global_final ?s' ! e') = 3"
        using old(1) shapes by (cases "e' = e") simp_all
      show "length (local_multipliers ?s' ! e') = 3"
        using old(2) by simp
      {
        fix l' assume l': "l' < (3::nat)" and m1: "local_multipliers ?s' ! e' ! l' = 1"
        then have m1': "local_multipliers s ! e' ! l' = 1" by simp
        with old(3) l' have o: "l2g ! e' ! l' \<noteq> - 1"
          "0 \<le> local2global_final s ! e' ! l'" "local2global_final s ! e' ! l' < int count"
          by simp_all
        show "l2g ! e' ! l' \<noteq> - 1" by (rule o)
        from o(1) True have diff: "\<not> (e' = e \<and> l' = l)" by auto
        with o(2) shapes l' show "0 \<le> local2global_final ?s' ! e' ! l'"
          by (cases "e' = e") (auto simp: nth_list_update)
        from diff o(3) shapes l' show "local2global_final ?s' ! e' ! l' < int count"
          by (cases "e' = e") (auto simp: nth_list_update)
      }
      {
        assume all: "l2g ! e' = [- 1, - 1, - 1]"
        with old(4) have z: "local2global_final s ! e' = [0, 0, 0]"
          "local_multipliers s ! e' = [0, 0, 0]" by simp_all
        show "local_multipliers ?s' ! e' = [0, 0, 0]" using z by simp
        show "local2global_final ?s' ! e' = [0, 0, 0]"
        proof (cases "e' = e")
          case False
          with z show ?thesis by simp
        next
          case True
          with all m have "min_dof = 0" by simp
          with True z shapes three_cases [OF l] show ?thesis by auto
        qed
      }
    qed
    with run show ?thesis by auto
  qed
qed

lemma finish_element_ok:
  assumes d: "dofs_ok g l2g dofs count"
    and ok: "pass2_ok g l2g count s"
    and e: "e < number_of_elements g"
  shows "\<exists>s'. finish_element l2g dofs e s = Inr s' \<and> pass2_ok g l2g count s'"
proof -
  from assign_slot_ok [OF d ok e, of 0] obtain s0 where
    a0: "assign_slot l2g dofs e 0 s = Inr s0" and ok0: "pass2_ok g l2g count s0" by auto
  from assign_slot_ok [OF d ok0 e, of 1] obtain s1 where
    a1: "assign_slot l2g dofs e 1 s0 = Inr s1" and ok1: "pass2_ok g l2g count s1" by auto
  from assign_slot_ok [OF d ok1 e, of 2] obtain s2 where
    a2: "assign_slot l2g dofs e 2 s1 = Inr s2" and ok2: "pass2_ok g l2g count s2" by auto
  let ?row = "local2global_final s2 ! e"
  from ok2 e have row: "getitem (local2global_final s2) (int e) = Inr ?row"
    and r3: "length ?row = 3"
    and zero: "l2g ! e = [- 1, - 1, - 1] \<longrightarrow> ?row = [0, 0, 0]"
    by (simp_all add: pass2_ok_def)
  from r3 obtain a b c where abc: "?row = [a, b, c]"
    by (cases ?row; cases "tl ?row"; cases "tl (tl ?row)") auto
  let ?m = "min c (min b a)"
  have mn: "np_min ?row = Inr ?m" by (simp add: abc np_min_def)
  from zero abc have m0: "l2g ! e = [- 1, - 1, - 1] \<longrightarrow> ?m = 0" by auto
  from fill_slot_ok [OF d ok2 e _ m0, of 0] obtain t0 where
    f0: "fill_slot l2g ?m e 0 s2 = Inr t0" and okt0: "pass2_ok g l2g count t0" by auto
  from fill_slot_ok [OF d okt0 e _ m0, of 1] obtain t1 where
    f1: "fill_slot l2g ?m e 1 t0 = Inr t1" and okt1: "pass2_ok g l2g count t1" by auto
  from fill_slot_ok [OF d okt1 e _ m0, of 2] obtain t2 where
    f2: "fill_slot l2g ?m e 2 t1 = Inr t2" and okt2: "pass2_ok g l2g count t2" by auto
  have "finish_element l2g dofs e s = Inr t2"
    using a0 a1 a2 row mn f0 f1 f2 by (simp add: finish_element_def)
  with okt2 show ?thesis by blast
qed

lemma second_pass_ok:
  assumes d: "dofs_ok g l2g dofs count"
  shows "\<forall>e\<in>set es. e < number_of_elements g \<Longrightarrow> pass2_ok g l2g count s \<Longrightarrow>
         \<exists>s'. second_pass l2g dofs es s = Inr s' \<and> pass2_ok g l2g count s'"
proof (induction es arbitrary: s)
  case Nil
  then show ?case by simp
next
  case (Cons e es)
  from Cons.prems have e: "e < number_of_elements g" by simp
  from finish_element_ok [OF d Cons.prems(2) e] obtain t where
    t: "finish_element l2g dofs e s = Inr t" and okt: "pass2_ok g l2g count t" by blast
  from Cons.IH [OF _ okt] Cons.prems(1) obtain s' where
    "second_pass l2g dofs es t = Inr s'" "pass2_ok g l2g count s'" by auto
  with t show ?case by simp
qed

lemma initial_pass2_ok: "pass2_ok g l2g count (initial_pass2 g)"
  by (auto simp: pass2_ok_def initial_pass2_def dest!: three_cases)

lemma initial_pass1_ok: "pass1_ok g (initial_pass1 g support)"
  by (auto simp: pass1_ok_def initial_pass1_def)

lemma dofs_ok_compact:
  assumes ok: "pass1_ok g s" and nv: "number_of_vertices g \<le> 2 ^ 31"
  shows "dofs_ok g (local2global s) (compact_dofs (number_of_vertices g) (vertex_is_dof s))
           (length (flatnonzero (vertex_is_dof s)))"
proof -
  from ok have len: "length (vertex_is_dof s) = number_of_vertices g"
    by (simp add: pass1_ok_def)
  have "length (flatnonzero (vertex_is_dof s)) \<le> number_of_vertices g"
    using length_flatnonzero_le [of "vertex_is_dof s"] len by simp
  with nv have count: "int (length (flatnonzero (vertex_is_dof s))) \<le> 2 ^ 32"
    by simp
  have entry: "p = - 1 \<or>
           (0 \<le> p \<and> p < int (number_of_vertices g) \<and>
            0 \<le> compact_dofs (number_of_vertices g) (vertex_is_dof s) ! nat p \<and>
            compact_dofs (number_of_vertices g) (vertex_is_dof s) ! nat p
              < int (length (flatnonzero (vertex_is_dof s))))"
    if "row \<in> set (local2global s)" "p \<in> set row" for row p
  proof -
    from ok that have "p = - 1 \<or>
        (0 \<le> p \<and> p < int (number_of_vertices g) \<and> vertex_is_dof s ! nat p)"
      by (auto simp: pass1_ok_def)
    then show ?thesis
    proof
      assume "p = - 1" then show ?thesis by simp
    next
      assume a: "0 \<le> p \<and> p < int (number_of_vertices g) \<and> vertex_is_dof s ! nat p"
      then have "nat p < number_of_vertices g" by linarith
      from compact_dofs_marked [OF len this] a show ?thesis by simp
    qed
  qed
  show ?thesis
    unfolding dofs_ok_def
  proof (intro conjI ballI)
    show "length (local2global s) = number_of_elements g"
      using ok by (simp add: pass1_ok_def)
    show "length (compact_dofs (number_of_vertices g) (vertex_is_dof s)) = number_of_vertices g"
      by simp
    show "int (length (flatnonzero (vertex_is_dof s))) \<le> 2 ^ 32" by (rule count)
  next
    fix row assume row: "row \<in> set (local2global s)"
    with ok show "length row = 3" by (simp add: pass1_ok_def)
    fix p assume "p \<in> set row"
    with row show "p = - 1 \<or>
           (0 \<le> p \<and> p < int (number_of_vertices g) \<and>
            0 \<le> compact_dofs (number_of_vertices g) (vertex_is_dof s) ! nat p \<and>
            compact_dofs (number_of_vertices g) (vertex_is_dof s) ! nat p
              < int (length (flatnonzero (vertex_is_dof s))))"
      by (rule entry)
  qed
qed

text \<open>Once the first loop has finished, the rest of the function runs to its end.\<close>

lemma locals_after_first_pass:
  assumes nv: "number_of_vertices g \<le> 2 ^ 31"
    and run: "first_pass g support ibd egc vn ip 0 (initial_pass1 g support) = Some (Inr s)"
  shows "\<exists>s2. compute_p1_dof_map_locals g support ibd egc vn ip =
            Some (Inr (s, length (flatnonzero (vertex_is_dof s)), s2)) \<and>
          pass1_ok g s \<and> (\<forall>e\<in>set (elements_in_support s). e < number_of_elements g) \<and>
          pass2_ok g (local2global s) (length (flatnonzero (vertex_is_dof s))) s2"
proof -
  from first_pass_ok [OF run] nv initial_pass1_ok
  have ok: "pass1_ok g s" and w: "\<forall>e\<in>set (elements_in_support s). e < number_of_elements g"
    by simp_all
  from second_pass_ok [OF dofs_ok_compact [OF ok nv] w initial_pass2_ok] obtain s2 where
    "second_pass (local2global s) (compact_dofs (number_of_vertices g) (vertex_is_dof s))
       (elements_in_support s) (initial_pass2 g) = Inr s2"
    "pass2_ok g (local2global s) (length (flatnonzero (vertex_is_dof s))) s2" by blast
  with run ok w show ?thesis by (simp add: compute_p1_dof_map_locals_def)
qed

lemma locals_returned:
  assumes nv: "number_of_vertices g \<le> 2 ^ 31"
    and run: "compute_p1_dof_map_locals g support ibd egc vn ip = Some (Inr (s, n, s2))"
  shows "n = length (flatnonzero (vertex_is_dof s)) \<and> pass1_ok g s \<and>
         (\<forall>e\<in>set (elements_in_support s). e < number_of_elements g) \<and>
         pass2_ok g (local2global s) n s2"
proof -
  from run have fp: "first_pass g support ibd egc vn ip 0 (initial_pass1 g support) = Some (Inr s)"
    by (auto simp: compute_p1_dof_map_locals_def bind_err_eq_Inr
        split: option.splits sum.splits)
  from locals_after_first_pass [OF nv fp] run show ?thesis by auto
qed

section \<open>C3: an element without any vertex DOF\<close>

text \<open>
  C3 as stated fails. On the grid \<open>mesh_star\<close> with only the middle triangle in the
  support and no boundary DOFs, every corner of element 0 has a neighbour outside the
  support, so element 0 is in the working list with no vertex assigned; the construction
  returns all the same, with an all-zero row for it, and raises nothing.
\<close>

theorem zero_assigned_element_not_rejected:
  "p1_continuous_locals mesh_star [True, False, False, False] False False =
     Some (Inr (\<lparr> elements_in_support = [0],
                   local2global = [[- 1, - 1, - 1], [- 1, - 1, - 1], [- 1, - 1, - 1], [- 1, - 1, - 1]],
                   vertex_is_dof = [False, False, False, False, False, False] \<rparr>,
                0,
                \<lparr> support_final = [False, False, False, False],
                   local2global_final = [[0, 0, 0], [0, 0, 0], [0, 0, 0], [0, 0, 0]],
                   local_multipliers = [[0, 0, 0], [0, 0, 0], [0, 0, 0], [0, 0, 0]] \<rparr>))"
  by code_simp

text \<open>
  C3, amended. When the first loop has finished and an element of the working list has
  no vertex in any of its three slots, the construction does not abort: it returns, and
  the row of that element is all 0 in \<open>local2global\<close> with all three multipliers 0.
\<close>

theorem zero_assigned_element_completes:
  assumes nv: "number_of_vertices g \<le> 2 ^ 31"
    and run: "first_pass g support include_boundary_dofs ensure_global_continuity
                vertex_neighbors index_ptr 0 (initial_pass1 g support) = Some (Inr s)"
    and e: "e \<in> set (elements_in_support s)"
    and none: "local2global s ! e = [- 1, - 1, - 1]"
  shows "\<exists>s2. compute_p1_dof_map_locals g support include_boundary_dofs ensure_global_continuity
                 vertex_neighbors index_ptr =
               Some (Inr (s, length (flatnonzero (vertex_is_dof s)), s2)) \<and>
             local2global_final s2 ! e = [0, 0, 0] \<and>
             local_multipliers s2 ! e = [0, 0, 0]"
proof -
  from locals_after_first_pass [OF nv run] obtain s2 where
    r: "compute_p1_dof_map_locals g support include_boundary_dofs ensure_global_continuity
          vertex_neighbors index_ptr = Some (Inr (s, length (flatnonzero (vertex_is_dof s)), s2))"
    and w: "\<forall>e\<in>set (elements_in_support s). e < number_of_elements g"
    and ok: "pass2_ok g (local2global s) (length (flatnonzero (vertex_is_dof s))) s2"
    by blast
  from w e have "e < number_of_elements g" by simp
  with ok none have "local2global_final s2 ! e = [0, 0, 0] \<and> local_multipliers s2 ! e = [0, 0, 0]"
    by (simp add: pass2_ok_def)
  with r show ?thesis by blast
qed

theorem zero_assigned_element_completes_witness:
  "\<exists>s2. compute_p1_dof_map_locals mesh_star [True, False, False, False] False False
           [0, 1, 3, 0, 1, 2, 0, 2, 3, 1, 2, 3] [0, 3, 6, 9, 10, 11, 12] =
         Some (Inr (\<lparr> elements_in_support = [0],
                   local2global = [[- 1, - 1, - 1], [- 1, - 1, - 1], [- 1, - 1, - 1], [- 1, - 1, - 1]],
                   vertex_is_dof = [False, False, False, False, False, False] \<rparr>, 0, s2)) \<and>
       local2global_final s2 ! 0 = [0, 0, 0] \<and> local_multipliers s2 ! 0 = [0, 0, 0]"
proof -
  have nv: "number_of_vertices mesh_star \<le> 2 ^ 31" by (simp add: mesh_star_def)
  have run: "first_pass mesh_star [True, False, False, False] False False
           [0, 1, 3, 0, 1, 2, 0, 2, 3, 1, 2, 3] [0, 3, 6, 9, 10, 11, 12] 0
           (initial_pass1 mesh_star [True, False, False, False]) =
         Some (Inr \<lparr> elements_in_support = [0],
                   local2global = [[- 1, - 1, - 1], [- 1, - 1, - 1], [- 1, - 1, - 1], [- 1, - 1, - 1]],
                   vertex_is_dof = [False, False, False, False, False, False] \<rparr>)"
    by code_simp
  have z: "length (flatnonzero [False, False, False, False, False, False]) = 0" by code_simp
  from zero_assigned_element_completes [OF nv run, of 0] z show ?thesis by simp
qed

section \<open>C2: the placeholder of an unused slot\<close>

text \<open>
  C2 at a concrete grid. Element 1 of \<open>mesh_fill\<close> has no DOF on its corner 0
  (vertex 1 touches element 2, outside the support) and the DOFs 1 and 2 on its other
  two corners. The minimum is taken over the whole row of \<open>local2global_final\<close>,
  in which the unused slot still holds its initial 0, so the slot is filled with 0 and
  not with 1, the least DOF of the other slots. DOF 0 belongs to vertex 0, which is not
  a corner of element 1. The multiplier of the slot is 0.
\<close>

theorem unused_slot_filled_with_zero:
  "p1_continuous_locals mesh_fill [True, True, False] False False =
     Some (Inr (\<lparr> elements_in_support = [0, 1],
                   local2global = [[0, 2, 3], [- 1, 2, 3], [- 1, - 1, - 1]],
                   vertex_is_dof = [True, False, True, True, False, False] \<rparr>,
                3,
                \<lparr> support_final = [True, True, False],
                   local2global_final = [[0, 1, 2], [0, 1, 2], [0, 0, 0]],
                   local_multipliers = [[1, 1, 1], [0, 1, 1], [0, 0, 0]] \<rparr>))"
  by code_simp

section \<open>C1: the traversal of the growing working list\<close>

lemma list2: "length xs = 2 \<Longrightarrow> \<exists>a b. xs = [a, b]"
  by (cases xs; cases "tl xs") auto

lemma list3: "length xs = 3 \<Longrightarrow> \<exists>a b c. xs = [a, b, c]"
  by (cases xs; cases "tl xs"; cases "tl (tl xs)") auto

lemma list4: "length xs = 4 \<Longrightarrow> \<exists>a b c d. xs = [a, b, c, d]"
  by (cases xs; cases "tl xs"; cases "tl (tl xs)"; cases "tl (tl (tl xs))") auto

lemma revisit_corner:
  assumes "length (local2global s) = 2" "length (local2global s ! 1) = 3"
    "length (vertex_is_dof s) = 4" "l < 3"
  shows "\<exists>s'. visit_corner mesh2 [True, False] True True [0, 0, 1, 0, 1, 1] [0, 1, 3, 5, 6] 1 l s = Inr s' \<and>
           elements_in_support s' = elements_in_support s @ [1] \<and>
           length (local2global s') = 2 \<and> length (local2global s' ! 1) = 3 \<and>
           length (vertex_is_dof s') = 4"
proof -
  from list2 [OF assms(1)] obtain r0 r1 where rows: "local2global s = [r0, r1]" by blast
  with assms(2) have "length r1 = 3" by simp
  from list3 [OF this] obtain a b c where r1: "r1 = [a, b, c]" by blast
  from list4 [OF assms(3)] obtain v0 v1 v2 v3 where vid: "vertex_is_dof s = [v0, v1, v2, v3]"
    by blast
  from three_cases [OF assms(4)] show ?thesis
  proof (elim disjE)
    assume "l = 0"
    then show ?thesis
      by (simp add: visit_corner_def elements_at_def mesh2_def py_slice_def find_index_def
          getitem_def setitem_def setitem2_def py_index_def int32_of_def rows r1 vid)
  next
    assume "l = 1"
    then show ?thesis
      by (simp add: visit_corner_def elements_at_def mesh2_def py_slice_def find_index_def
          getitem_def setitem_def setitem2_def py_index_def int32_of_def rows r1 vid)
  next
    assume "l = 2"
    then show ?thesis
      by (simp add: visit_corner_def elements_at_def mesh2_def py_slice_def find_index_def
          getitem_def setitem_def setitem2_def py_index_def int32_of_def rows r1 vid)
  qed
qed

lemma revisit_element:
  assumes "growing i s"
  shows "\<exists>s'. visit_element mesh2 [True, False] True True [0, 0, 1, 0, 1, 1] [0, 1, 3, 5, 6] 1 s = Inr s' \<and>
           growing (i + 1) s'"
proof -
  from assms have sh: "length (local2global s) = 2" "length (local2global s ! 1) = 3"
    "length (vertex_is_dof s) = 4" by (simp_all add: growing_def)
  from revisit_corner [OF sh, of 0] obtain s0 where
    c0: "visit_corner mesh2 [True, False] True True [0, 0, 1, 0, 1, 1] [0, 1, 3, 5, 6] 1 0 s = Inr s0"
    and w0: "elements_in_support s0 = elements_in_support s @ [1]"
    and sh0: "length (local2global s0) = 2" "length (local2global s0 ! 1) = 3"
      "length (vertex_is_dof s0) = 4" by auto
  from revisit_corner [OF sh0, of 1] obtain s1 where
    c1: "visit_corner mesh2 [True, False] True True [0, 0, 1, 0, 1, 1] [0, 1, 3, 5, 6] 1 1 s0 = Inr s1"
    and w1: "elements_in_support s1 = elements_in_support s0 @ [1]"
    and sh1: "length (local2global s1) = 2" "length (local2global s1 ! 1) = 3"
      "length (vertex_is_dof s1) = 4" by auto
  from revisit_corner [OF sh1, of 2] obtain s2 where
    c2: "visit_corner mesh2 [True, False] True True [0, 0, 1, 0, 1, 1] [0, 1, 3, 5, 6] 1 2 s1 = Inr s2"
    and w2: "elements_in_support s2 = elements_in_support s1 @ [1]"
    and sh2: "length (local2global s2) = 2" "length (local2global s2 ! 1) = 3"
      "length (vertex_is_dof s2) = 4" by auto
  have run: "visit_element mesh2 [True, False] True True [0, 0, 1, 0, 1, 1] [0, 1, 3, 5, 6] 1 s = Inr s2"
    using c0 c1 c2 by (simp add: visit_element_def)
  have w: "elements_in_support s2 = elements_in_support s @ [1, 1, 1]"
    using w0 w1 w2 by simp
  have "growing (i + 1) s2"
    unfolding growing_def
  proof (intro conjI allI impI)
    show "0 < i + 1" by simp
    show "i + 1 < length (elements_in_support s2)" using assms w by (simp add: growing_def)
    show "length (local2global s2) = 2" "length (local2global s2 ! 1) = 3"
      "length (vertex_is_dof s2) = 4" by (rule sh2)+
  next
    fix j assume j: "0 < j \<and> j < length (elements_in_support s2)"
    show "elements_in_support s2 ! j = 1"
    proof (cases "j < length (elements_in_support s)")
      case True
      with j assms w show ?thesis by (simp add: growing_def nth_append)
    next
      case False
      with j w have "j - length (elements_in_support s) < 3" by auto
      then have "[1, 1, 1::nat] ! (j - length (elements_in_support s)) = 1"
        using three_cases by fastforce
      with False w show ?thesis by (simp add: nth_append)
    qed
  qed
  with run show ?thesis by blast
qed

lemma growing_never_returns:
  assumes run: "first_pass g support ibd egc vn ip i s = Some r"
  shows "\<not> (g = mesh2 \<and> support = [True, False] \<and> ibd \<and> egc \<and>
            vn = [0, 0, 1, 0, 1, 1] \<and> ip = [0, 1, 3, 5, 6] \<and> growing i s)"
proof (rule first_pass.raw_induct [where P = "\<lambda>g support ibd egc vn ip i s r.
         \<not> (g = mesh2 \<and> support = [True, False] \<and> ibd \<and> egc \<and>
            vn = [0, 0, 1, 0, 1, 1] \<and> ip = [0, 1, 3, 5, 6] \<and> growing i s)", OF _ run])
  fix f :: "grid_data \<Rightarrow> bool list \<Rightarrow> bool \<Rightarrow> bool \<Rightarrow> nat list \<Rightarrow> nat list \<Rightarrow> nat \<Rightarrow> pass1
     \<Rightarrow> (error + pass1) option"
    and g support ibd egc vn ip i s r
  assume IH: "\<And>g support ibd egc vn ip i s r. f g support ibd egc vn ip i s = Some r \<Longrightarrow>
         \<not> (g = mesh2 \<and> support = [True, False] \<and> ibd \<and> egc \<and>
            vn = [0, 0, 1, 0, 1, 1] \<and> ip = [0, 1, 3, 5, 6] \<and> growing i s)"
    and body: "(if i < length (elements_in_support s) then
        (case visit_element g support ibd egc vn ip (elements_in_support s ! i) s of
           Inl e \<Rightarrow> Some (Inl e)
         | Inr s' \<Rightarrow> f g support ibd egc vn ip (i + 1) s')
      else Some (Inr s)) = Some r"
  show "\<not> (g = mesh2 \<and> support = [True, False] \<and> ibd \<and> egc \<and>
            vn = [0, 0, 1, 0, 1, 1] \<and> ip = [0, 1, 3, 5, 6] \<and> growing i s)"
  proof
    assume a: "g = mesh2 \<and> support = [True, False] \<and> ibd \<and> egc \<and>
            vn = [0, 0, 1, 0, 1, 1] \<and> ip = [0, 1, 3, 5, 6] \<and> growing i s"
    then have gr: "growing i s" by simp
    then have i: "i < length (elements_in_support s)" "elements_in_support s ! i = 1"
      by (simp_all add: growing_def)
    from revisit_element [OF gr] obtain s' where
      v: "visit_element mesh2 [True, False] True True [0, 0, 1, 0, 1, 1] [0, 1, 3, 5, 6] 1 s = Inr s'"
      and gr': "growing (i + 1) s'" by blast
    from body i v a have "f g support ibd egc vn ip (i + 1) s' = Some r" by simp
    from IH [OF this] a gr' show False by simp
  qed
qed

text \<open>
  C1 at a concrete grid. On \<open>mesh2\<close> with element 0 in the support, element 1 outside
  it and both flags set, visiting element 0 appends element 1; visiting element 1
  appends element 1 again, three times, because the support mask never changes and
  element 1 is a neighbour of each of its own corners. The loop never ends and the
  constructor returns nothing.
\<close>

theorem extension_never_terminates:
  "p1_continuous_function_space mesh2 [True, False] [1, 1] True True = None"
proof -
  have adj: "collect_neighbors 0 (elements mesh2) (replicate (number_of_vertices mesh2) []) =
      Inr [[0], [0, 1], [0, 1], [1]]"
    by code_simp
  have ser: "serialise_list_of_lists [[0], [0, 1], [0, 1], [1::nat]] =
      ([0, 0, 1, 0, 1, 1], [0, 1, 3, 5, 6])"
    by code_simp
  let ?s1 = "\<lparr> elements_in_support = [0, 1, 1],
               local2global = [[0, 1, 2], [1, 2, - 1]],
               vertex_is_dof = [True, True, True, False] \<rparr>"
  have first: "visit_element mesh2 [True, False] True True [0, 0, 1, 0, 1, 1] [0, 1, 3, 5, 6] 0
      (initial_pass1 mesh2 [True, False]) = Inr ?s1"
    by code_simp
  have init: "0 < length (elements_in_support (initial_pass1 mesh2 [True, False]))"
    "elements_in_support (initial_pass1 mesh2 [True, False]) ! 0 = 0"
    by (simp_all add: initial_pass1_def flatnonzero_def)
  have gr: "growing (0 + 1) ?s1"
    by (auto simp: growing_def nth_Cons split: nat.splits)
  have step: "first_pass mesh2 [True, False] True True [0, 0, 1, 0, 1, 1] [0, 1, 3, 5, 6] 0
      (initial_pass1 mesh2 [True, False]) =
    first_pass mesh2 [True, False] True True [0, 0, 1, 0, 1, 1] [0, 1, 3, 5, 6] (0 + 1) ?s1"
    by (subst first_pass.simps) (simp only: init if_True first sum.case)
  have "first_pass mesh2 [True, False] True True [0, 0, 1, 0, 1, 1] [0, 1, 3, 5, 6] (0 + 1) ?s1 = None"
    using growing_never_returns [of mesh2 "[True, False]" True True "[0, 0, 1, 0, 1, 1]"
        "[0, 1, 3, 5, 6]" "0 + 1" ?s1] gr
    by (cases "first_pass mesh2 [True, False] True True [0, 0, 1, 0, 1, 1] [0, 1, 3, 5, 6] (0 + 1) ?s1")
      (simp_all del: One_nat_def add_0)
  with step have "compute_p1_dof_map mesh2 [True, False] True True [0, 0, 1, 0, 1, 1] [0, 1, 3, 5, 6] = None"
    by (simp add: compute_p1_dof_map_def compute_p1_dof_map_locals_def)
  then show ?thesis
    by (simp only: p1_continuous_function_space_def adj ser sum.case prod.case option.map)
qed

section \<open>Assignment through a boolean mask\<close>


lemma length_flatnonzero: "length (flatnonzero sel) = length (filter (\<lambda>b. b) sel)"
proof -
  have "filter (\<lambda>b. b) sel = filter (\<lambda>b. b) (map (\<lambda>i. sel ! i) [0..<length sel])"
    by (simp add: map_nth)
  also have "\<dots> = map (\<lambda>i. sel ! i) (filter (\<lambda>i. sel ! i) [0..<length sel])"
    by (simp add: filter_map comp_def)
  finally show ?thesis by (simp add: flatnonzero_eq)
qed

lemma length_mask_put [simp]: "length (mask_put a sel vals) = length a"
  by (induction a sel vals rule: mask_put.induct) auto

lemma mask_put_False:
  "mask_put (x # xs) (False # bs) vals = x # mask_put xs bs vals"
  by (cases vals; cases xs; cases bs) simp_all

lemma mask_put_nth:
  "length a = length sel \<Longrightarrow> length (filter (\<lambda>b. b) sel) \<le> length vals \<Longrightarrow> e < length a \<Longrightarrow>
     mask_put a sel vals ! e =
       (if sel ! e then vals ! length (filter (\<lambda>b. b) (take e sel)) else a ! e)"
proof (induction sel arbitrary: a vals e)
  case Nil
  then show ?case by simp
next
  case (Cons b bs)
  from Cons.prems(1) obtain x xs where a: "a = x # xs" and len: "length xs = length bs"
    by (cases a) auto
  show ?case
  proof (cases b)
    case True
    with Cons.prems(2) obtain v vs where vals: "vals = v # vs"
      and lv: "length (filter (\<lambda>b. b) bs) \<le> length vs"
      by (cases vals) auto
    show ?thesis
    proof (cases e)
      case 0
      with True a vals show ?thesis by simp
    next
      case (Suc e')
      with Cons.prems(3) a have "e' < length xs" by simp
      from Cons.IH [OF len lv this] True a vals Suc show ?thesis by simp
    qed
  next
    case False
    with Cons.prems(2) have lv: "length (filter (\<lambda>b. b) bs) \<le> length vals" by simp
    show ?thesis
    proof (cases e)
      case 0
      with False a show ?thesis by (simp add: mask_put_False)
    next
      case (Suc e')
      with Cons.prems(3) a have "e' < length xs" by simp
      from Cons.IH [OF len lv this] False a Suc show ?thesis by (simp add: mask_put_False)
    qed
  qed
qed

lemma rank_take:
  "e \<le> length sel \<Longrightarrow>
     length (filter (\<lambda>b. b) (take e sel)) = length (filter (\<lambda>i. sel ! i) [0..<e])"
  by (induction e) (simp_all add: take_Suc_conv_app_nth)

lemma rank_flatnonzero:
  assumes k: "k < length (flatnonzero sel)"
  shows "flatnonzero sel ! k < length sel \<and> sel ! (flatnonzero sel ! k) \<and>
         length (filter (\<lambda>b. b) (take (flatnonzero sel ! k) sel)) = k"
proof -
  let ?F = "flatnonzero sel" and ?e = "flatnonzero sel ! k"
  from k have mem: "?e \<in> set ?F" by simp
  then have e: "?e < length sel" "sel ! ?e" by (simp_all add: set_flatnonzero)
  have split: "[0..<length sel] = [0..<?e] @ ?e # [Suc ?e..<length sel]"
    using e(1) by (metis less_imp_add_positive upt_add_eq_append upt_conv_Cons zero_le le_add1 less_or_eq_imp_le)
  let ?m = "length (filter (\<lambda>i. sel ! i) [0..<?e])"
  have F: "?F = filter (\<lambda>i. sel ! i) [0..<?e] @ ?e # filter (\<lambda>i. sel ! i) [Suc ?e..<length sel]"
    using e(2) by (subst flatnonzero_eq, subst split) simp
  then have "?F ! ?m = ?e" by (metis nth_append_length)
  moreover have "?m < length ?F" by (subst (2) F) simp
  ultimately have "?m = k"
    using k distinct_flatnonzero [of sel] by (simp add: nth_eq_iff_index_eq)
  moreover have "length (filter (\<lambda>b. b) (take ?e sel)) = ?m"
    using e(1) by (simp add: rank_take)
  ultimately show ?thesis using e by simp
qed

section \<open>C6: the discontinuous spaces number their DOFs consecutively\<close>


lemma active_row_ones:
  "length v = length ones \<Longrightarrow> \<forall>x\<in>set ones. x = (1::int) \<Longrightarrow>
     map fst (filter (\<lambda>(d, m). m = 1) (zip v ones)) = v"
  by (induction v ones rule: list_induct2) auto

lemma active_row_zeros:
  "\<forall>x\<in>set zeros. x \<noteq> (1::int) \<Longrightarrow> map fst (filter (\<lambda>(d, m). m = 1) (zip v zeros)) = []"
  by (auto simp: filter_empty_conv dest: set_zip_rightD)

lemma active_dofs_Cons:
  "active_dofs (row # rows) (ms # mss) =
     map fst (filter (\<lambda>(d, m). m = 1) (zip row ms)) @ active_dofs rows mss"
  by (simp add: active_dofs_def)

lemma active_dofs_masked:
  assumes ones: "\<forall>x\<in>set ones. x = 1" and zeros: "\<forall>x\<in>set zeros. x \<noteq> 1"
  shows "length a = length sel \<Longrightarrow> length (filter (\<lambda>b. b) sel) = length vals \<Longrightarrow>
     \<forall>v\<in>set vals. length v = length ones \<Longrightarrow>
     active_dofs (mask_put a sel vals)
       (map (\<lambda>(x, b). if b then ones else x) (zip (replicate (length sel) zeros) sel)) =
     concat vals"
proof (induction sel arbitrary: a vals)
  case Nil
  then show ?case by (simp add: active_dofs_def)
next
  case (Cons b bs)
  from Cons.prems(1) obtain x xs where a: "a = x # xs" and len: "length xs = length bs"
    by (cases a) auto
  show ?case
  proof (cases b)
    case True
    with Cons.prems(2) obtain v vs where vals: "vals = v # vs"
      and lv: "length (filter (\<lambda>b. b) bs) = length vs"
      by (cases vals) auto
    from Cons.prems(3) vals have v: "length v = length ones" and vs: "\<forall>v\<in>set vs. length v = length ones"
      by simp_all
    from Cons.IH [OF len lv vs] True a vals active_row_ones [OF v ones] show ?thesis
      by (simp add: active_dofs_Cons)
  next
    case False
    with Cons.prems(2) have lv: "length (filter (\<lambda>b. b) bs) = length vals" by simp
    have put: "mask_put (x # xs) (False # bs) vals = x # mask_put xs bs vals"
      by (cases vals) (use lv in auto)
    from Cons.IH [OF len lv Cons.prems(3)] False a put active_row_zeros [OF zeros] show ?thesis
      by (simp add: active_dofs_Cons)
  qed
qed

lemma uint32_of_le: "0 \<le> x \<Longrightarrow> 0 \<le> uint32_of x \<and> uint32_of x \<le> x"
  by (simp add: uint32_of_def zmod_le_nonneg_dividend)

lemma concat_singles:
  assumes "int n \<le> 2 ^ 32"
  shows "concat (map (\<lambda>k. [uint32_of (int k)]) [0..<n]) = map int [0..<n]"
proof -
  have "map (\<lambda>k. [uint32_of (int k)]) [0..<n] = map (\<lambda>k. [int k]) [0..<n]"
    using assms by (intro map_cong) (simp_all add: uint32_of_id)
  then show ?thesis by (simp add: concat_map_singleton)
qed

lemma concat_triples_exact: "concat (map (\<lambda>k. [int (3 * k), int (3 * k + 1), int (3 * k + 2)]) [0..<n]) =
    map int [0..<3 * n]"
proof (induction n)
  case 0
  then show ?case by simp
next
  case (Suc n)
  have e: "3 * Suc n = Suc (Suc (Suc (3 * n)))" by simp
  have "[0..<Suc (Suc (Suc (3 * n)))] = [0..<3 * n] @ [3 * n, 3 * n + 1, 3 * n + 2]"
    by simp
  then have "[0..<3 * Suc n] = [0..<3 * n] @ [3 * n, 3 * n + 1, 3 * n + 2]"
    by (simp only: e)
  moreover have "[0..<Suc n] = [0..<n] @ [n]" by simp
  ultimately show ?case using Suc by (simp del: upt_Suc mult_Suc_right)
qed

lemma concat_triples:
  assumes "int (3 * n) \<le> 2 ^ 32"
  shows "concat (map (\<lambda>k. [uint32_of (int (3 * k)), uint32_of (int (3 * k + 1)),
                            uint32_of (int (3 * k + 2))]) [0..<n]) = map int [0..<3 * n]"
proof -
  have "map (\<lambda>k. [uint32_of (int (3 * k)), uint32_of (int (3 * k + 1)),
                            uint32_of (int (3 * k + 2))]) [0..<n] =
        map (\<lambda>k. [int (3 * k), int (3 * k + 1), int (3 * k + 2)]) [0..<n]"
  proof (intro map_cong refl)
    fix k assume "k \<in> set [0..<n]"
    then have "int (3 * k + 2) < 2 ^ 32" using assms by simp
    then show "[uint32_of (int (3 * k)), uint32_of (int (3 * k + 1)), uint32_of (int (3 * k + 2))] =
        [int (3 * k), int (3 * k + 1), int (3 * k + 2)]"
      by (simp add: uint32_of_id)
  qed
  then show ?thesis by (simp only: concat_triples_exact)
qed

lemma mask_fill_nth:
  "length a = length sel \<Longrightarrow> e < length a \<Longrightarrow>
     map (\<lambda>(x, b). if b then c else x) (zip a sel) ! e = (if sel ! e then c else a ! e)"
  by simp

lemma p0_result:
  assumes "length support = number_of_elements grid"
  shows "p0_discontinuous_function_space grid support nm =
     Inr \<lparr> space_codomain_dimension = 1, space_support = support,
           space_normal_multipliers = nm, space_order = 0,
           space_shapeset = ''p0_discontinuous'', space_identifier = ''p0_discontinuous'',
           space_local2global = mask_put (replicate (length support) [0]) support
              (map (\<lambda>k. [uint32_of (int k)]) [0..<length (flatnonzero support)]),
           space_local_multipliers =
              map (\<lambda>(x, b). if b then [1] else x) (zip (replicate (length support) [0]) support) \<rparr>"
  using assms
  by (simp add: p0_discontinuous_function_space_def mask_assign_def mask_fill_def Let_def)

lemma p1_result:
  assumes "length support = number_of_elements grid"
  shows "p1_discontinuous_function_space grid support nm =
     Inr \<lparr> space_codomain_dimension = 1, space_support = support,
           space_normal_multipliers = nm, space_order = 1,
           space_shapeset = ''p1_discontinuous'', space_identifier = ''p1_discontinuous'',
           space_local2global = mask_put (replicate (length support) [0, 0, 0]) support
              (map (\<lambda>k. [uint32_of (int (3 * k)), uint32_of (int (3 * k + 1)),
                          uint32_of (int (3 * k + 2))]) [0..<length (flatnonzero support)]),
           space_local_multipliers =
              map (\<lambda>(x, b). if b then [1, 1, 1] else x)
                (zip (replicate (length support) [0, 0, 0]) support) \<rparr>"
  using assms
  by (simp add: p1_discontinuous_function_space_def mask_assign_def mask_fill_def Let_def)

lemma discontinuous_Inr_length:
  "p0_discontinuous_function_space grid support nm = Inr sp \<Longrightarrow>
     length support = number_of_elements grid"
  "p1_discontinuous_function_space grid support nm = Inr sp \<Longrightarrow>
     length support = number_of_elements grid"
  by (auto simp: p0_discontinuous_function_space_def p1_discontinuous_function_space_def
      mask_assign_def Let_def split: if_splits)

lemma p0_rows:
  assumes sup: "length support = number_of_elements grid"
    and run: "p0_discontinuous_function_space grid support nm = Inr sp"
    and e: "e < number_of_elements grid"
  shows "space_local_multipliers sp ! e = (if support ! e then [1] else [0])"
    and "space_local2global sp ! e =
      (if support ! e then [uint32_of (int (length (filter (\<lambda>b. b) (take e support))))] else [0])"
    and "support ! e \<Longrightarrow> length (filter (\<lambda>b. b) (take e support)) < length (flatnonzero support)"
proof -
  from p0_result [OF sup, of nm] run have sp: "sp = \<lparr> space_codomain_dimension = 1, space_support = support,
           space_normal_multipliers = nm, space_order = 0,
           space_shapeset = ''p0_discontinuous'', space_identifier = ''p0_discontinuous'',
           space_local2global = mask_put (replicate (length support) [0]) support
              (map (\<lambda>k. [uint32_of (int k)]) [0..<length (flatnonzero support)]),
           space_local_multipliers =
              map (\<lambda>(x, b). if b then [1] else x) (zip (replicate (length support) [0]) support) \<rparr>"
    by simp
  from e sup have e': "e < length support" by simp
  show "space_local_multipliers sp ! e = (if support ! e then [1] else [0])"
    using e' by (simp add: sp)
  have rank: "length (filter (\<lambda>b. b) (take e support)) < length (flatnonzero support)"
    if "support ! e"
  proof -
    have "support = take e support @ support ! e # drop (Suc e) support"
      using e' by (simp add: id_take_nth_drop [symmetric])
    then have "length (filter (\<lambda>b. b) support) =
        length (filter (\<lambda>b. b) (take e support @ support ! e # drop (Suc e) support))"
      by simp
    with that show ?thesis by (simp add: length_flatnonzero)
  qed
  then show "support ! e \<Longrightarrow> length (filter (\<lambda>b. b) (take e support)) < length (flatnonzero support)" .
  have "space_local2global sp ! e =
      (if support ! e then map (\<lambda>k. [uint32_of (int k)]) [0..<length (flatnonzero support)] !
          length (filter (\<lambda>b. b) (take e support)) else replicate (length support) [0] ! e)"
    unfolding sp using e' by (simp add: mask_put_nth length_flatnonzero)
  then show "space_local2global sp ! e =
      (if support ! e then [uint32_of (int (length (filter (\<lambda>b. b) (take e support))))] else [0])"
    using rank e' by auto
qed

lemma p1_rows:
  assumes sup: "length support = number_of_elements grid"
    and run: "p1_discontinuous_function_space grid support nm = Inr sp"
    and e: "e < number_of_elements grid"
  shows "space_local_multipliers sp ! e = (if support ! e then [1, 1, 1] else [0, 0, 0])"
    and "space_local2global sp ! e =
      (if support ! e then
         [uint32_of (int (3 * length (filter (\<lambda>b. b) (take e support)))),
          uint32_of (int (3 * length (filter (\<lambda>b. b) (take e support)) + 1)),
          uint32_of (int (3 * length (filter (\<lambda>b. b) (take e support)) + 2))]
       else [0, 0, 0])"
    and "support ! e \<Longrightarrow> length (filter (\<lambda>b. b) (take e support)) < length (flatnonzero support)"
proof -
  from p1_result [OF sup, of nm] run have sp: "sp = \<lparr> space_codomain_dimension = 1, space_support = support,
           space_normal_multipliers = nm, space_order = 1,
           space_shapeset = ''p1_discontinuous'', space_identifier = ''p1_discontinuous'',
           space_local2global = mask_put (replicate (length support) [0, 0, 0]) support
              (map (\<lambda>k. [uint32_of (int (3 * k)), uint32_of (int (3 * k + 1)),
                          uint32_of (int (3 * k + 2))]) [0..<length (flatnonzero support)]),
           space_local_multipliers =
              map (\<lambda>(x, b). if b then [1, 1, 1] else x)
                (zip (replicate (length support) [0, 0, 0]) support) \<rparr>"
    by simp
  from e sup have e': "e < length support" by simp
  show "space_local_multipliers sp ! e = (if support ! e then [1, 1, 1] else [0, 0, 0])"
    using e' by (simp add: sp)
  have rank: "length (filter (\<lambda>b. b) (take e support)) < length (flatnonzero support)"
    if "support ! e"
  proof -
    have "support = take e support @ support ! e # drop (Suc e) support"
      using e' by (simp add: id_take_nth_drop [symmetric])
    then have "length (filter (\<lambda>b. b) support) =
        length (filter (\<lambda>b. b) (take e support @ support ! e # drop (Suc e) support))"
      by simp
    with that show ?thesis by (simp add: length_flatnonzero)
  qed
  then show "support ! e \<Longrightarrow> length (filter (\<lambda>b. b) (take e support)) < length (flatnonzero support)" .
  have "space_local2global sp ! e =
      (if support ! e then map (\<lambda>k. [uint32_of (int (3 * k)), uint32_of (int (3 * k + 1)),
                          uint32_of (int (3 * k + 2))]) [0..<length (flatnonzero support)] !
          length (filter (\<lambda>b. b) (take e support)) else replicate (length support) [0, 0, 0] ! e)"
    unfolding sp using e' by (simp add: mask_put_nth length_flatnonzero)
  then show "space_local2global sp ! e =
      (if support ! e then
         [uint32_of (int (3 * length (filter (\<lambda>b. b) (take e support)))),
          uint32_of (int (3 * length (filter (\<lambda>b. b) (take e support)) + 1)),
          uint32_of (int (3 * length (filter (\<lambda>b. b) (take e support)) + 2))]
       else [0, 0, 0])"
    using rank e' by auto
qed

text \<open>
  C6. For a support mask of the length of the grid, the P0 constructor gives the k-th
  support element (in ascending order) the global index \<open>k\<close>, and the
  P1-discontinuous constructor gives it \<open>3k, 3k+1, 3k+2\<close>; the multipliers are 1 on
  every slot of a support element and 0 on every slot of another element; and the
  indices at multiplier 1, read in scan order, are exactly \<open>0, 1, \<dots>, n - 1\<close> for
  \<open>n\<close> the support size times the local DOFs per element, so that is the number of
  distinct global DOFs. The indices are stored as \<open>uint32\<close>: the statement is for
  spaces of at most \<open>2^32\<close> DOFs.
\<close>

theorem discontinuous_dof_numbering:
  assumes sup: "length support = number_of_elements grid"
  shows "(int (length (flatnonzero support)) \<le> 2 ^ 32 \<longrightarrow>
           (\<exists>sp. p0_discontinuous_function_space grid support nm = Inr sp \<and>
              (\<forall>k<length (flatnonzero support).
                  space_local2global sp ! (flatnonzero support ! k) = [int k]) \<and>
              (\<forall>e<number_of_elements grid.
                  space_local_multipliers sp ! e = (if support ! e then [1] else [0])) \<and>
              active_dofs (space_local2global sp) (space_local_multipliers sp) =
                map int [0..<discontinuous_global_dof_count support 1])) \<and>
         (int (3 * length (flatnonzero support)) \<le> 2 ^ 32 \<longrightarrow>
           (\<exists>sp. p1_discontinuous_function_space grid support nm = Inr sp \<and>
              (\<forall>k<length (flatnonzero support).
                  space_local2global sp ! (flatnonzero support ! k) =
                    [int (3 * k), int (3 * k + 1), int (3 * k + 2)]) \<and>
              (\<forall>e<number_of_elements grid.
                  space_local_multipliers sp ! e = (if support ! e then [1, 1, 1] else [0, 0, 0])) \<and>
              active_dofs (space_local2global sp) (space_local_multipliers sp) =
                map int [0..<discontinuous_global_dof_count support 3]))"
proof (intro conjI impI)
  assume size: "int (length (flatnonzero support)) \<le> 2 ^ 32"
  let ?sp = "\<lparr> space_codomain_dimension = 1, space_support = support,
           space_normal_multipliers = nm, space_order = 0,
           space_shapeset = ''p0_discontinuous'', space_identifier = ''p0_discontinuous'',
           space_local2global = mask_put (replicate (length support) [0]) support
              (map (\<lambda>k. [uint32_of (int k)]) [0..<length (flatnonzero support)]),
           space_local_multipliers =
              map (\<lambda>(x, b). if b then [1] else x) (zip (replicate (length support) [0]) support) \<rparr>"
  have run: "p0_discontinuous_function_space grid support nm = Inr ?sp"
    by (rule p0_result [OF sup])
  have rows: "space_local2global ?sp ! (flatnonzero support ! k) = [int k]"
    if k: "k < length (flatnonzero support)" for k
  proof -
    from rank_flatnonzero [OF k] have e: "flatnonzero support ! k < number_of_elements grid"
      "support ! (flatnonzero support ! k)"
      "length (filter (\<lambda>b. b) (take (flatnonzero support ! k) support)) = k"
      using sup by simp_all
    from k size have "uint32_of (int k) = int k" by (simp add: uint32_of_id)
    with p0_rows(2) [OF sup run e(1)] e(2,3) show ?thesis by simp
  qed
  have mult: "space_local_multipliers ?sp ! e = (if support ! e then [1] else [0])"
    if "e < number_of_elements grid" for e
    by (rule p0_rows(1) [OF sup run that])
  have "active_dofs (space_local2global ?sp) (space_local_multipliers ?sp) =
      concat (map (\<lambda>k. [uint32_of (int k)]) [0..<length (flatnonzero support)])"
    using active_dofs_masked [of "[1]" "[0]" "replicate (length support) [0]" support
        "map (\<lambda>k. [uint32_of (int k)]) [0..<length (flatnonzero support)]"]
    by (simp add: length_flatnonzero)
  then have act: "active_dofs (space_local2global ?sp) (space_local_multipliers ?sp) =
      map int [0..<discontinuous_global_dof_count support 1]"
    using concat_singles [OF size] by (simp add: discontinuous_global_dof_count_def)
  from run rows mult act
  show "\<exists>sp. p0_discontinuous_function_space grid support nm = Inr sp \<and>
              (\<forall>k<length (flatnonzero support).
                  space_local2global sp ! (flatnonzero support ! k) = [int k]) \<and>
              (\<forall>e<number_of_elements grid.
                  space_local_multipliers sp ! e = (if support ! e then [1] else [0])) \<and>
              active_dofs (space_local2global sp) (space_local_multipliers sp) =
                map int [0..<discontinuous_global_dof_count support 1]"
    by blast
next
  assume size: "int (3 * length (flatnonzero support)) \<le> 2 ^ 32"
  let ?sp = "\<lparr> space_codomain_dimension = 1, space_support = support,
           space_normal_multipliers = nm, space_order = 1,
           space_shapeset = ''p1_discontinuous'', space_identifier = ''p1_discontinuous'',
           space_local2global = mask_put (replicate (length support) [0, 0, 0]) support
              (map (\<lambda>k. [uint32_of (int (3 * k)), uint32_of (int (3 * k + 1)),
                          uint32_of (int (3 * k + 2))]) [0..<length (flatnonzero support)]),
           space_local_multipliers =
              map (\<lambda>(x, b). if b then [1, 1, 1] else x)
                (zip (replicate (length support) [0, 0, 0]) support) \<rparr>"
  have run: "p1_discontinuous_function_space grid support nm = Inr ?sp"
    by (rule p1_result [OF sup])
  have rows: "space_local2global ?sp ! (flatnonzero support ! k) =
      [int (3 * k), int (3 * k + 1), int (3 * k + 2)]"
    if k: "k < length (flatnonzero support)" for k
  proof -
    from rank_flatnonzero [OF k] have e: "flatnonzero support ! k < number_of_elements grid"
      "support ! (flatnonzero support ! k)"
      "length (filter (\<lambda>b. b) (take (flatnonzero support ! k) support)) = k"
      using sup by simp_all
    from k size have "int (3 * k + 2) < 2 ^ 32" by simp
    then have "uint32_of (int (3 * k)) = int (3 * k)" "uint32_of (int (3 * k + 1)) = int (3 * k + 1)"
      "uint32_of (int (3 * k + 2)) = int (3 * k + 2)"
      by (simp_all add: uint32_of_id)
    with p1_rows(2) [OF sup run e(1)] e(2,3) show ?thesis by simp
  qed
  have mult: "space_local_multipliers ?sp ! e = (if support ! e then [1, 1, 1] else [0, 0, 0])"
    if "e < number_of_elements grid" for e
    by (rule p1_rows(1) [OF sup run that])
  have "active_dofs (space_local2global ?sp) (space_local_multipliers ?sp) =
      concat (map (\<lambda>k. [uint32_of (int (3 * k)), uint32_of (int (3 * k + 1)),
                          uint32_of (int (3 * k + 2))]) [0..<length (flatnonzero support)])"
    using active_dofs_masked [of "[1, 1, 1]" "[0, 0, 0]" "replicate (length support) [0, 0, 0]" support
        "map (\<lambda>k. [uint32_of (int (3 * k)), uint32_of (int (3 * k + 1)),
                          uint32_of (int (3 * k + 2))]) [0..<length (flatnonzero support)]"]
    by (simp add: length_flatnonzero)
  then have act: "active_dofs (space_local2global ?sp) (space_local_multipliers ?sp) =
      map int [0..<discontinuous_global_dof_count support 3]"
    using concat_triples [OF size]
    by (simp only: discontinuous_global_dof_count_def mult.commute [of _ 3])
  from run rows mult act
  show "\<exists>sp. p1_discontinuous_function_space grid support nm = Inr sp \<and>
              (\<forall>k<length (flatnonzero support).
                  space_local2global sp ! (flatnonzero support ! k) =
                    [int (3 * k), int (3 * k + 1), int (3 * k + 2)]) \<and>
              (\<forall>e<number_of_elements grid.
                  space_local_multipliers sp ! e = (if support ! e then [1, 1, 1] else [0, 0, 0])) \<and>
              active_dofs (space_local2global sp) (space_local_multipliers sp) =
                map int [0..<discontinuous_global_dof_count support 3]"
    by blast
qed

theorem discontinuous_dof_numbering_witness:
  "(\<exists>sp. p0_discontinuous_function_space mesh_fill [True, False, True] [1, 1, 1] = Inr sp \<and>
      (\<forall>k<length (flatnonzero [True, False, True]).
          space_local2global sp ! (flatnonzero [True, False, True] ! k) = [int k]) \<and>
      (\<forall>e<number_of_elements mesh_fill.
          space_local_multipliers sp ! e = (if [True, False, True] ! e then [1] else [0])) \<and>
      active_dofs (space_local2global sp) (space_local_multipliers sp) =
        map int [0..<discontinuous_global_dof_count [True, False, True] 1]) \<and>
   (\<exists>sp. p1_discontinuous_function_space mesh_fill [True, False, True] [1, 1, 1] = Inr sp \<and>
      (\<forall>k<length (flatnonzero [True, False, True]).
          space_local2global sp ! (flatnonzero [True, False, True] ! k) =
            [int (3 * k), int (3 * k + 1), int (3 * k + 2)]) \<and>
      (\<forall>e<number_of_elements mesh_fill.
          space_local_multipliers sp ! e = (if [True, False, True] ! e then [1, 1, 1] else [0, 0, 0])) \<and>
      active_dofs (space_local2global sp) (space_local_multipliers sp) =
        map int [0..<discontinuous_global_dof_count [True, False, True] 3])"
proof -
  have sup: "length [True, False, True] = number_of_elements mesh_fill"
    by (simp add: number_of_elements_def mesh_fill_def)
  have size: "int (length (flatnonzero [True, False, True])) \<le> 2 ^ 32"
    "int (3 * length (flatnonzero [True, False, True])) \<le> 2 ^ 32"
    by (simp_all add: flatnonzero_def)
  from discontinuous_dof_numbering [OF sup, of "[1, 1, 1]"] size show ?thesis by blast
qed

section \<open>C5: an index with multiplier 1 is below the DOF count\<close>

text \<open>
  C5. In each of the three spaces, an entry of \<open>local2global\<close> whose multiplier is 1
  is a non-negative index below the global DOF count: the support size (P0), three
  times the support size (P1-discontinuous), the number of flagged vertices
  \<open>global_dof_count\<close> (P1-continuous, for whatever flags and neighbour arrays the
  function returns with, on a grid of at most \<open>2^31\<close> vertices, the range of the
  \<open>int32\<close> provisional map).
\<close>

theorem active_index_below_count:
  "(p0_discontinuous_function_space grid support nm = Inr sp0 \<longrightarrow>
      (\<forall>e<number_of_elements grid. space_local_multipliers sp0 ! e ! 0 = 1 \<longrightarrow>
         0 \<le> space_local2global sp0 ! e ! 0 \<and>
         space_local2global sp0 ! e ! 0 < int (discontinuous_global_dof_count support 1))) \<and>
   (p1_discontinuous_function_space grid support nm = Inr sp1 \<longrightarrow>
      (\<forall>e<number_of_elements grid. \<forall>l<3. space_local_multipliers sp1 ! e ! l = 1 \<longrightarrow>
         0 \<le> space_local2global sp1 ! e ! l \<and>
         space_local2global sp1 ! e ! l < int (discontinuous_global_dof_count support 3))) \<and>
   (number_of_vertices grid \<le> 2 ^ 31 \<longrightarrow>
    compute_p1_dof_map_locals grid support include_boundary_dofs ensure_global_continuity
        vertex_neighbors index_ptr = Some (Inr (s, global_dof_count, s2)) \<longrightarrow>
      (\<forall>e<number_of_elements grid. \<forall>l<3. local_multipliers s2 ! e ! l = 1 \<longrightarrow>
         0 \<le> local2global_final s2 ! e ! l \<and>
         local2global_final s2 ! e ! l < int global_dof_count))"
proof (intro conjI impI allI)
  fix e
  assume run: "p0_discontinuous_function_space grid support nm = Inr sp0"
    and e: "e < number_of_elements grid"
    and m: "space_local_multipliers sp0 ! e ! 0 = 1"
  from discontinuous_Inr_length(1) [OF run] have sup: "length support = number_of_elements grid" .
  from p0_rows(1) [OF sup run e] m have on: "support ! e" by (auto split: if_splits)
  let ?r = "length (filter (\<lambda>b. b) (take e support))"
  from p0_rows(2) [OF sup run e] on have row: "space_local2global sp0 ! e ! 0 = uint32_of (int ?r)"
    by simp
  from p0_rows(3) [OF sup run e on] have "int ?r < int (discontinuous_global_dof_count support 1)"
    by (simp add: discontinuous_global_dof_count_def)
  with uint32_of_le [of "int ?r"] row
  show "0 \<le> space_local2global sp0 ! e ! 0"
    "space_local2global sp0 ! e ! 0 < int (discontinuous_global_dof_count support 1)"
    by simp_all
next
  fix e l :: nat
  assume run: "p1_discontinuous_function_space grid support nm = Inr sp1"
    and e: "e < number_of_elements grid" and l: "l < 3"
    and m: "space_local_multipliers sp1 ! e ! l = 1"
  from discontinuous_Inr_length(2) [OF run] have sup: "length support = number_of_elements grid" .
  from p1_rows(1) [OF sup run e] m l have on: "support ! e"
    by (auto split: if_splits dest!: three_cases)
  let ?r = "length (filter (\<lambda>b. b) (take e support))"
  from p1_rows(2) [OF sup run e] on three_cases [OF l]
  have row: "space_local2global sp1 ! e ! l = uint32_of (int (3 * ?r + l))"
    by (auto simp: add.commute)
  from p1_rows(3) [OF sup run e on] l
  have "int (3 * ?r + l) < int (discontinuous_global_dof_count support 3)"
    by (simp add: discontinuous_global_dof_count_def)
  with uint32_of_le [of "int (3 * ?r + l)"] row
  show "0 \<le> space_local2global sp1 ! e ! l"
    "space_local2global sp1 ! e ! l < int (discontinuous_global_dof_count support 3)"
    by simp_all
next
  fix e l :: nat
  assume nv: "number_of_vertices grid \<le> 2 ^ 31"
    and run: "compute_p1_dof_map_locals grid support include_boundary_dofs ensure_global_continuity
        vertex_neighbors index_ptr = Some (Inr (s, global_dof_count, s2))"
    and e: "e < number_of_elements grid" and l: "l < 3"
    and m: "local_multipliers s2 ! e ! l = 1"
  from locals_returned [OF nv run] have "pass2_ok grid (local2global s) global_dof_count s2"
    by blast
  with e l m show "0 \<le> local2global_final s2 ! e ! l"
    "local2global_final s2 ! e ! l < int global_dof_count"
    by (simp_all add: pass2_ok_def)
qed

theorem active_index_below_count_witness:
  "(\<exists>sp0. p0_discontinuous_function_space mesh_fill [True, True, False] [1, 1, 1] = Inr sp0 \<and>
      (\<forall>e<number_of_elements mesh_fill. space_local_multipliers sp0 ! e ! 0 = 1 \<longrightarrow>
         0 \<le> space_local2global sp0 ! e ! 0 \<and>
         space_local2global sp0 ! e ! 0 < int (discontinuous_global_dof_count [True, True, False] 1))) \<and>
   (\<exists>sp1. p1_discontinuous_function_space mesh_fill [True, True, False] [1, 1, 1] = Inr sp1 \<and>
      (\<forall>e<number_of_elements mesh_fill. \<forall>l<3. space_local_multipliers sp1 ! e ! l = 1 \<longrightarrow>
         0 \<le> space_local2global sp1 ! e ! l \<and>
         space_local2global sp1 ! e ! l < int (discontinuous_global_dof_count [True, True, False] 3))) \<and>
   (\<exists>s s2. compute_p1_dof_map_locals mesh_fill [True, True, False] False False
        [0, 1, 2, 0, 1, 0, 1, 2, 2] [0, 1, 3, 5, 7, 8, 9] = Some (Inr (s, 3, s2)) \<and>
      (\<forall>e<number_of_elements mesh_fill. \<forall>l<3. local_multipliers s2 ! e ! l = 1 \<longrightarrow>
         0 \<le> local2global_final s2 ! e ! l \<and> local2global_final s2 ! e ! l < int 3))"
proof -
  let ?sp0 = "\<lparr> space_codomain_dimension = 1, space_support = [True, True, False],
            space_normal_multipliers = [1, 1, 1], space_order = 0,
            space_shapeset = ''p0_discontinuous'', space_identifier = ''p0_discontinuous'',
            space_local2global = [[0], [1], [0]],
            space_local_multipliers = [[1], [1], [0]] \<rparr>"
  let ?sp1 = "\<lparr> space_codomain_dimension = 1, space_support = [True, True, False],
            space_normal_multipliers = [1, 1, 1], space_order = 1,
            space_shapeset = ''p1_discontinuous'', space_identifier = ''p1_discontinuous'',
            space_local2global = [[0, 1, 2], [3, 4, 5], [0, 0, 0]],
            space_local_multipliers = [[1, 1, 1], [1, 1, 1], [0, 0, 0]] \<rparr>"
  let ?s = "\<lparr> elements_in_support = [0, 1],
                   local2global = [[0, 2, 3], [- 1, 2, 3], [- 1, - 1, - 1]],
                   vertex_is_dof = [True, False, True, True, False, False] \<rparr>"
  let ?s2 = "\<lparr> support_final = [True, True, False],
                   local2global_final = [[0, 1, 2], [0, 1, 2], [0, 0, 0]],
                   local_multipliers = [[1, 1, 1], [0, 1, 1], [0, 0, 0]] \<rparr>"
  have r0: "p0_discontinuous_function_space mesh_fill [True, True, False] [1, 1, 1] = Inr ?sp0"
    by code_simp
  have r1: "p1_discontinuous_function_space mesh_fill [True, True, False] [1, 1, 1] = Inr ?sp1"
    by code_simp
  have r2: "compute_p1_dof_map_locals mesh_fill [True, True, False] False False
        [0, 1, 2, 0, 1, 0, 1, 2, 2] [0, 1, 3, 5, 7, 8, 9] = Some (Inr (?s, 3, ?s2))"
    by code_simp
  have nv: "number_of_vertices mesh_fill \<le> 2 ^ 31" by (simp add: mesh_fill_def)
  note t = active_index_below_count [of mesh_fill "[True, True, False]" "[1, 1, 1]" ?sp0 ?sp1
      False False "[0, 1, 2, 0, 1, 0, 1, 2, 2]" "[0, 1, 3, 5, 7, 8, 9]" ?s 3 ?s2]
  from t r0 have a: "\<forall>e<number_of_elements mesh_fill. space_local_multipliers ?sp0 ! e ! 0 = 1 \<longrightarrow>
         0 \<le> space_local2global ?sp0 ! e ! 0 \<and>
         space_local2global ?sp0 ! e ! 0 < int (discontinuous_global_dof_count [True, True, False] 1)"
    by blast
  from t r1 have b: "\<forall>e<number_of_elements mesh_fill. \<forall>l<3. space_local_multipliers ?sp1 ! e ! l = 1 \<longrightarrow>
         0 \<le> space_local2global ?sp1 ! e ! l \<and>
         space_local2global ?sp1 ! e ! l < int (discontinuous_global_dof_count [True, True, False] 3)"
    by blast
  from t r2 nv have c: "\<forall>e<number_of_elements mesh_fill. \<forall>l<3. local_multipliers ?s2 ! e ! l = 1 \<longrightarrow>
         0 \<le> local2global_final ?s2 ! e ! l \<and> local2global_final ?s2 ! e ! l < int 3"
    by blast
  show ?thesis
  proof (intro conjI)
    from r0 a show "\<exists>sp0. p0_discontinuous_function_space mesh_fill [True, True, False] [1, 1, 1] = Inr sp0 \<and>
      (\<forall>e<number_of_elements mesh_fill. space_local_multipliers sp0 ! e ! 0 = 1 \<longrightarrow>
         0 \<le> space_local2global sp0 ! e ! 0 \<and>
         space_local2global sp0 ! e ! 0 < int (discontinuous_global_dof_count [True, True, False] 1))"
      by (intro exI [of _ ?sp0] conjI)
    from r1 b show "\<exists>sp1. p1_discontinuous_function_space mesh_fill [True, True, False] [1, 1, 1] = Inr sp1 \<and>
      (\<forall>e<number_of_elements mesh_fill. \<forall>l<3. space_local_multipliers sp1 ! e ! l = 1 \<longrightarrow>
         0 \<le> space_local2global sp1 ! e ! l \<and>
         space_local2global sp1 ! e ! l < int (discontinuous_global_dof_count [True, True, False] 3))"
      by (intro exI [of _ ?sp1] conjI)
    from r2 c show "\<exists>s s2. compute_p1_dof_map_locals mesh_fill [True, True, False] False False
        [0, 1, 2, 0, 1, 0, 1, 2, 2] [0, 1, 3, 5, 7, 8, 9] = Some (Inr (s, 3, s2)) \<and>
      (\<forall>e<number_of_elements mesh_fill. \<forall>l<3. local_multipliers s2 ! e ! l = 1 \<longrightarrow>
         0 \<le> local2global_final s2 ! e ! l \<and> local2global_final s2 ! e ! l < int 3)"
      by (intro exI [of _ ?s] exI [of _ ?s2] conjI)
  qed
qed

section \<open>The support mask of the continuous space\<close>

lemma bind_err_rel:
  assumes "rel_sum (=) R m m'"
    and "\<And>x x'. R x x' \<Longrightarrow> rel_sum (=) Q (f x) (f' x')"
  shows "rel_sum (=) Q (bind_err m f) (bind_err m' f')"
  using assms by (cases m; cases m') simp_all

lemma rel_sum_refl_eq: "rel_sum (=) (=) m m"
  by (cases m) simp_all

lemma setitem_length_cong:
  "length xs = length ys \<Longrightarrow>
     rel_sum (=) (\<lambda>a b. length a = length b) (setitem xs i v) (setitem ys i v)"
  by (cases "py_index (length ys) i") (simp_all add: setitem_def)

lemma assign_slot_outputs:
  assumes "same_outputs s t"
  shows "rel_sum (=) same_outputs (assign_slot l2g dofs e l s) (assign_slot l2g dofs e l t)"
proof -
  from assms have eq: "local2global_final s = local2global_final t"
    "local_multipliers s = local_multipliers t"
    "length (support_final s) = length (support_final t)"
    by (simp_all add: same_outputs_def)
  show ?thesis
  proof (cases "getitem2 l2g (int e) (int l)")
    case (Inl err)
    then show ?thesis by (simp add: assign_slot_def)
  next
    case (Inr p)
    show ?thesis
    proof (cases "p = - 1")
      case True
      with Inr assms show ?thesis by (simp add: assign_slot_def)
    next
      case False
      show ?thesis
      proof (cases "getitem dofs p")
        case (Inl err)
        with Inr False show ?thesis by (simp add: assign_slot_def)
      next
        case d: (Inr d)
        show ?thesis
        proof (cases "py_index (length (support_final t)) (int e)")
          case (Inl err)
          with Inr False d eq show ?thesis by (simp add: assign_slot_def setitem_def)
        next
          case k: (Inr k)
          show ?thesis
          proof (cases "setitem2 (local2global_final t) (int e) (int l) (uint32_of d)")
            case (Inl err)
            with Inr False d eq k show ?thesis by (simp add: assign_slot_def setitem_def)
          next
            case f: (Inr f)
            show ?thesis
            proof (cases "setitem2 (local_multipliers t) (int e) (int l) 1")
              case (Inl err)
              with Inr False d eq k f show ?thesis by (simp add: assign_slot_def setitem_def)
            next
              case m: (Inr m)
              with Inr False d eq k f show ?thesis
                by (simp add: assign_slot_def setitem_def same_outputs_def)
            qed
          qed
        qed
      qed
    qed
  qed
qed

lemma fill_slot_outputs:
  assumes "same_outputs s t"
  shows "rel_sum (=) same_outputs (fill_slot l2g m e l s) (fill_slot l2g m e l t)"
  using assms
  by (auto simp: fill_slot_def same_outputs_def bind_err_def split: sum.splits)

lemma fill_slots_outputs:
  assumes st: "same_outputs s t"
  shows "rel_sum (=) same_outputs
        (bind_err (fill_slot l2g m e 0 s) (\<lambda>t0.
         bind_err (fill_slot l2g m e 1 t0) (\<lambda>t1. fill_slot l2g m e 2 t1)))
        (bind_err (fill_slot l2g m e 0 t) (\<lambda>t0.
         bind_err (fill_slot l2g m e 1 t0) (\<lambda>t1. fill_slot l2g m e 2 t1)))"
  apply (rule bind_err_rel [OF fill_slot_outputs [OF st]])
  apply (rule bind_err_rel [OF fill_slot_outputs], assumption)
  apply (erule fill_slot_outputs)
  done

lemma min_fill_outputs:
  assumes st: "same_outputs s t"
  shows "rel_sum (=) same_outputs
        (bind_err (getitem (local2global_final s) (int e)) (\<lambda>row.
         bind_err (np_min row) (\<lambda>min_dof.
         bind_err (fill_slot l2g min_dof e 0 s) (\<lambda>t0.
         bind_err (fill_slot l2g min_dof e 1 t0) (\<lambda>t1.
         fill_slot l2g min_dof e 2 t1)))))
        (bind_err (getitem (local2global_final t) (int e)) (\<lambda>row.
         bind_err (np_min row) (\<lambda>min_dof.
         bind_err (fill_slot l2g min_dof e 0 t) (\<lambda>t0.
         bind_err (fill_slot l2g min_dof e 1 t0) (\<lambda>t1.
         fill_slot l2g min_dof e 2 t1)))))"
proof -
  from st have eq: "local2global_final s = local2global_final t"
    by (simp add: same_outputs_def)
  show ?thesis
  proof (cases "getitem (local2global_final t) (int e)")
    case (Inl err)
    with eq show ?thesis by simp
  next
    case (Inr row)
    show ?thesis
    proof (cases "np_min row")
      case (Inl err)
      with Inr eq show ?thesis by simp
    next
      case m: (Inr m)
      with Inr eq fill_slots_outputs [OF st, of l2g m e] show ?thesis by simp
    qed
  qed
qed

lemma finish_element_outputs:
  assumes "same_outputs s t"
  shows "rel_sum (=) same_outputs (finish_element l2g dofs e s) (finish_element l2g dofs e t)"
  unfolding finish_element_def
  apply (rule bind_err_rel [OF assign_slot_outputs [OF assms]])
  apply (rule bind_err_rel [OF assign_slot_outputs], assumption)
  apply (rule bind_err_rel [OF assign_slot_outputs], assumption)
  apply (erule min_fill_outputs)
  done

lemma second_pass_outputs:
  "same_outputs s t \<Longrightarrow>
     rel_sum (=) same_outputs (second_pass l2g dofs es s) (second_pass l2g dofs es t)"
proof (induction es arbitrary: s t)
  case Nil
  then show ?case by simp
next
  case (Cons e es)
  have "rel_sum (=) same_outputs
      (bind_err (finish_element l2g dofs e s) (\<lambda>s'. second_pass l2g dofs es s'))
      (bind_err (finish_element l2g dofs e t) (\<lambda>s'. second_pass l2g dofs es s'))"
    by (rule bind_err_rel [OF finish_element_outputs [OF Cons.prems]]) (rule Cons.IH)
  then show ?case by simp
qed

lemma map_sum_Inr: "map_sum id f y = Inr z \<Longrightarrow> \<exists>x. y = Inr x \<and> z = f x"
  by (cases y) auto

text \<open>
  A space that \<^verbatim>\<open>p1_continuous_function_space\<close> returns carries the mask the
  constructor was given, whatever the flags.
\<close>

lemma returned_space_keeps_support:
  assumes "p1_continuous_function_space grid support normal_multipliers
        include_boundary_dofs ensure_global_continuity = Some (Inr sp)"
  shows "space_support sp = support"
  using assms unfolding p1_continuous_function_space_def
  by (cases "collect_neighbors 0 (elements grid) (replicate (number_of_vertices grid) [])")
    (auto split: prod.splits dest!: map_sum_Inr)

text \<open>
  The array \<open>support_final\<close> is not among the results of
  \<^verbatim>\<open>_compute_p1_dof_map\<close>, and it is not used either: the two arrays that are
  returned, and the error if there is one, are the same whatever \<open>support_final\<close>
  (of the same length) the second loop is started with.
\<close>

lemma support_final_unused:
  assumes "length sf = length (support_final s2)"
  shows "map_sum id (\<lambda>t. (local2global_final t, local_multipliers t))
        (second_pass l2g dofs es (s2\<lparr>support_final := sf\<rparr>)) =
      map_sum id (\<lambda>t. (local2global_final t, local_multipliers t))
        (second_pass l2g dofs es s2)"
proof -
  from assms have "same_outputs (s2\<lparr>support_final := sf\<rparr>) s2"
    by (simp add: same_outputs_def)
  from second_pass_outputs [OF this, of l2g dofs es] show ?thesis
    by (cases "second_pass l2g dofs es (s2\<lparr>support_final := sf\<rparr>)";
        cases "second_pass l2g dofs es s2") (simp_all add: same_outputs_def)
qed

section \<open>C4: the DOF count without boundary DOFs\<close>

lemma append_incident_total:
  "\<forall>v\<in>set vs. v < length vn \<Longrightarrow>
     \<exists>vn'. append_incident index vs vn = Inr vn' \<and> length vn' = length vn \<and>
       (\<forall>v<length vn. set (vn' ! v) = set (vn ! v) \<union> (if v \<in> set vs then {index} else {}))"
proof (induction vs arbitrary: vn)
  case Nil
  then show ?case by simp
next
  case (Cons x xs)
  let ?vn1 = "vn[x := vn ! x @ [index]]"
  from Cons.prems have x: "x < length vn" and xs: "\<forall>v\<in>set xs. v < length ?vn1" by simp_all
  from Cons.IH [OF xs] obtain vn' where
    r: "append_incident index xs ?vn1 = Inr vn'" and len: "length vn' = length vn"
    and sets: "\<forall>v<length vn. set (vn' ! v) = set (?vn1 ! v) \<union> (if v \<in> set xs then {index} else {})"
    by auto
  have "set (vn' ! v) = set (vn ! v) \<union> (if v \<in> set (x # xs) then {index} else {})"
    if "v < length vn" for v
    using sets that by (cases "v = x") (auto simp: nth_list_update)
  with r len x show ?case by simp
qed

lemma collect_neighbors_total:
  "\<forall>t\<in>set ts. \<forall>v\<in>set (column t). v < length vn \<Longrightarrow>
     \<exists>vn'. collect_neighbors index ts vn = Inr vn' \<and> length vn' = length vn \<and>
       (\<forall>v<length vn. set (vn' ! v) =
          set (vn ! v) \<union> {index + j | j. j < length ts \<and> v \<in> set (column (ts ! j))})"
proof (induction ts arbitrary: index vn)
  case Nil
  then show ?case by simp
next
  case (Cons t ts)
  from Cons.prems have "\<forall>v\<in>set (column t). v < length vn" by simp
  from append_incident_total [OF this, of index] obtain vn1 where
    a: "append_incident index (column t) vn = Inr vn1" and l1: "length vn1 = length vn"
    and s1: "\<forall>v<length vn. set (vn1 ! v) = set (vn ! v) \<union> (if v \<in> set (column t) then {index} else {})"
    by blast
  from Cons.prems l1 have "\<forall>t\<in>set ts. \<forall>v\<in>set (column t). v < length vn1" by simp
  from Cons.IH [OF this, of "index + 1"] obtain vn' where
    r: "collect_neighbors (index + 1) ts vn1 = Inr vn'" and l2: "length vn' = length vn1"
    and s2: "\<forall>v<length vn1. set (vn' ! v) =
          set (vn1 ! v) \<union> {index + 1 + j | j. j < length ts \<and> v \<in> set (column (ts ! j))}"
    by blast
  have "set (vn' ! v) =
          set (vn ! v) \<union> {index + j | j. j < length (t # ts) \<and> v \<in> set (column ((t # ts) ! j))}"
    if v: "v < length vn" for v
  proof -
    have "{index + j | j. j < length (t # ts) \<and> v \<in> set (column ((t # ts) ! j))} =
        (if v \<in> set (column t) then {index} else {}) \<union>
        {index + 1 + j | j. j < length ts \<and> v \<in> set (column (ts ! j))}"
      (is "?L = ?R")
    proof (intro set_eqI iffI)
      fix x assume "x \<in> ?L"
      then obtain j where j: "x = index + j" "j < length (t # ts)" "v \<in> set (column ((t # ts) ! j))"
        by blast
      then show "x \<in> ?R" by (cases j) auto
    next
      fix x assume "x \<in> ?R"
      then consider "v \<in> set (column t)" "x = index"
        | j where "x = index + 1 + j" "j < length ts" "v \<in> set (column (ts ! j))"
        by (auto split: if_splits)
      then show "x \<in> ?L"
      proof cases
        case 1
        then show ?thesis by (intro CollectI exI [of _ 0]) simp
      next
        case 2
        then show ?thesis by (intro CollectI exI [of _ "Suc j"]) simp
      qed
    qed
    with s1 s2 l1 v show ?thesis by auto
  qed
  with a r l1 l2 show ?case by simp
qed

lemma length_offsets_from [simp]: "length (offsets_from start ls) = length ls + 1"
  by (induction ls arbitrary: start) simp_all

lemma offsets_from_nth:
  "v \<le> length ls \<Longrightarrow> offsets_from start ls ! v = start + length (concat (take v ls))"
proof (induction ls arbitrary: start v)
  case Nil
  then show ?case by simp
next
  case (Cons l ls)
  then show ?case by (cases v) simp_all
qed

lemma serialised_slice:
  assumes v: "v < length ls"
  shows "py_slice (concat ls) (offsets_from 0 ls ! v) (offsets_from 0 ls ! (v + 1)) = ls ! v"
proof -
  have a: "offsets_from 0 ls ! v = length (concat (take v ls))"
    using v by (simp add: offsets_from_nth)
  have b: "offsets_from 0 ls ! (v + 1) = length (concat (take v ls)) + length (ls ! v)"
    using v by (simp add: offsets_from_nth take_Suc_conv_app_nth)
  have "concat ls = concat (take v ls) @ ls ! v @ concat (drop (Suc v) ls)"
    using v by (metis append_take_drop_id concat.simps(2) concat_append Cons_nth_drop_Suc)
  then show ?thesis
    unfolding py_slice_def a b by simp
qed

lemma constructor_adjacency:
  assumes "valid_grid g"
  shows "\<exists>ls. collect_neighbors 0 (elements g) (replicate (number_of_vertices g) []) = Inr ls \<and>
           adjacency_ok g (fst (serialise_list_of_lists ls)) (snd (serialise_list_of_lists ls))"
proof -
  from assms have "\<forall>t\<in>set (elements g). \<forall>v\<in>set (column t).
      v < length (replicate (number_of_vertices g) ([]::nat list))"
    by (simp add: valid_grid_def)
  from collect_neighbors_total [OF this, of 0] obtain ls where
    r: "collect_neighbors 0 (elements g) (replicate (number_of_vertices g) []) = Inr ls"
    and len: "length ls = number_of_vertices g"
    and sets: "\<forall>v<number_of_vertices g. set (ls ! v) =
         {j. j < length (elements g) \<and> v \<in> set (column (elements g ! j))}"
    by auto
  have "adjacency_ok g (fst (serialise_list_of_lists ls)) (snd (serialise_list_of_lists ls))"
    unfolding adjacency_ok_def serialise_list_of_lists_def fst_conv snd_conv
  proof (intro conjI allI impI)
    show "length (offsets_from 0 ls) = number_of_vertices g + 1" using len by simp
  next
    fix v assume v: "v < number_of_vertices g"
    then have "py_slice (concat ls) (offsets_from 0 ls ! v) (offsets_from 0 ls ! (v + 1)) = ls ! v"
      using len by (intro serialised_slice) simp
    moreover have "set (ls ! v) = set (incident_elements g v)"
      using sets v by (auto simp: incident_elements_def number_of_elements_def)
    ultimately show "set (py_slice (concat ls) (offsets_from 0 ls ! v) (offsets_from 0 ls ! (v + 1))) =
        set (incident_elements g v)"
      by simp
  qed
  with r show ?thesis by blast
qed

lemma non_support_total:
  "\<forall>n\<in>set ns. n < length support \<Longrightarrow>
     non_support support ns = Inr (filter (\<lambda>n. \<not> support ! n) ns)"
  by (induction ns) simp_all

lemma getitem_succ:
  "getitem xs (int k + 1) = (if k + 1 < length xs then Inr (xs ! (k + 1)) else Inl IndexError)"
  using getitem_nat [of xs "k + 1"] by (simp add: add.commute)

lemma incident_elements_iff:
  "e \<in> set (incident_elements g v) \<longleftrightarrow>
     e < number_of_elements g \<and> v \<in> set (column (elements g ! e))"
  by (auto simp: incident_elements_def)

lemma corner_in_range:
  assumes "valid_grid g" "e < number_of_elements g" "l < 3"
  shows "column (elements g ! e) ! l < number_of_vertices g"
    and "column (elements g ! e) ! l \<in> set (column (elements g ! e))"
proof -
  from assms(3) show m: "column (elements g ! e) ! l \<in> set (column (elements g ! e))" by simp
  from assms(2) have "elements g ! e \<in> set (elements g)" by (simp add: number_of_elements_def)
  with assms(1) m show "column (elements g ! e) ! l < number_of_vertices g"
    by (simp add: valid_grid_def)
qed

lemma pass1_ok_shapes:
  assumes "pass1_ok g s" "e < number_of_elements g"
  shows "length (local2global s) = number_of_elements g"
    and "length (vertex_is_dof s) = number_of_vertices g"
    and "length (local2global s ! e) = 3"
proof -
  from assms(1) show a: "length (local2global s) = number_of_elements g"
    and "length (vertex_is_dof s) = number_of_vertices g"
    by (simp_all add: pass1_ok_def)
  with assms(2) have "local2global s ! e \<in> set (local2global s)" by simp
  with assms(1) show "length (local2global s ! e) = 3" by (simp add: pass1_ok_def)
qed

lemma visit_corner_steps:
  assumes valid: "valid_grid g" and adj: "adjacency_ok g vn ip"
    and sup: "length support = number_of_elements g"
    and ok: "pass1_ok g s" and e: "e < number_of_elements g" and l: "l < 3"
  shows "visit_corner g support ibd egc vn ip e l s =
     (if non_support_neighbors support vn ip (column (elements g ! e) ! l) \<noteq> [] \<and> egc \<and> ibd then
        bind_err (write_neighbors g (column (elements g ! e) ! l)
                    (non_support_neighbors support vn ip (column (elements g ! e) ! l))
                    ((local2global s)[e := (local2global s ! e)[l :=
                        int32_of (int (column (elements g ! e) ! l))]]))
          (\<lambda>l2g. Inr (s\<lparr>vertex_is_dof := (vertex_is_dof s)[column (elements g ! e) ! l := True],
                          elements_in_support := elements_in_support s @
                               non_support_neighbors support vn ip (column (elements g ! e) ! l),
                          local2global := l2g\<rparr>))
      else if ibd \<or> non_support_neighbors support vn ip (column (elements g ! e) ! l) = [] then
        Inr (s\<lparr>local2global := (local2global s)[e := (local2global s ! e)[l :=
                        int32_of (int (column (elements g ! e) ! l))]],
               vertex_is_dof := (vertex_is_dof s)[column (elements g ! e) ! l := True]\<rparr>)
      else Inr s)"
proof -
  let ?v = "column (elements g ! e) ! l"
  let ?N = "non_support_neighbors support vn ip ?v"
  from corner_in_range [OF valid e l] have v: "?v < number_of_vertices g" by simp
  have at: "elements_at g (int l) (int e) = Inr ?v"
    using e l by (simp add: elements_at_def number_of_elements_def)
  from adj have lip: "length ip = number_of_vertices g + 1"
    and sl: "set (py_slice vn (ip ! ?v) (ip ! (?v + 1))) = set (incident_elements g ?v)"
    using v by (simp_all add: adjacency_ok_def)
  have lo: "getitem ip (int ?v) = Inr (ip ! ?v)" using v lip by simp
  have hi: "getitem ip (int ?v + 1) = Inr (ip ! (?v + 1))" using v lip by (simp add: getitem_succ)
  have "\<forall>n\<in>set (py_slice vn (ip ! ?v) (ip ! (?v + 1))). n < length support"
    unfolding sl sup by (simp add: incident_elements_iff)
  from non_support_total [OF this]
  have ns: "non_support support (py_slice vn (ip ! ?v) (ip ! (?v + 1))) = Inr ?N"
    by (simp add: non_support_neighbors_def)
  from pass1_ok_shapes [OF ok e] have sh: "e < length (local2global s)"
    "l < length (local2global s ! e)" "?v < length (vertex_is_dof s)"
    using e l v by simp_all
  show ?thesis
    unfolding visit_corner_def at bind_err_Inr lo hi ns
    using sh by (simp del: One_nat_def)
qed

lemma visit_corner_interior:
  assumes valid: "valid_grid g" and adj: "adjacency_ok g vn ip"
    and sup: "length support = number_of_elements g"
    and ok: "pass1_ok g s" and e: "e < number_of_elements g" and l: "l < 3"
  shows "\<exists>t. visit_corner g support False egc vn ip e l s = Inr t \<and>
           pass1_ok g t \<and> elements_in_support t = elements_in_support s \<and>
           (\<forall>v<number_of_vertices g. vertex_is_dof t ! v \<longleftrightarrow>
              vertex_is_dof s ! v \<or>
              (v = column (elements g ! e) ! l \<and> non_support_neighbors support vn ip v = []))"
proof -
  let ?v = "column (elements g ! e) ! l"
  let ?t = "if non_support_neighbors support vn ip ?v = [] then
        s\<lparr>local2global := (local2global s)[e := (local2global s ! e)[l := int32_of (int ?v)]],
          vertex_is_dof := (vertex_is_dof s)[?v := True]\<rparr>
      else s"
  have run: "visit_corner g support False egc vn ip e l s = Inr ?t"
    by (simp add: visit_corner_steps [OF valid adj sup ok e l])
  from valid have nv: "number_of_vertices g \<le> 2 ^ 31" by (simp add: valid_grid_def)
  from visit_corner_ok [OF nv ok run] have okt: "pass1_ok g ?t" by simp
  have w: "elements_in_support ?t = elements_in_support s" by simp
  from pass1_ok_shapes(2) [OF ok e] have len: "length (vertex_is_dof s) = number_of_vertices g" .
  have "vertex_is_dof ?t ! v \<longleftrightarrow>
      vertex_is_dof s ! v \<or> (v = ?v \<and> non_support_neighbors support vn ip v = [])"
    if "v < number_of_vertices g" for v
    using that len corner_in_range(1) [OF valid e l] by (auto simp: nth_list_update)
  with run okt w show ?thesis by blast
qed

lemma visit_element_interior:
  assumes valid: "valid_grid g" and adj: "adjacency_ok g vn ip"
    and sup: "length support = number_of_elements g"
    and ok: "pass1_ok g s" and e: "e < number_of_elements g"
  shows "\<exists>t. visit_element g support False egc vn ip e s = Inr t \<and>
           pass1_ok g t \<and> elements_in_support t = elements_in_support s \<and>
           (\<forall>v<number_of_vertices g. vertex_is_dof t ! v \<longleftrightarrow>
              vertex_is_dof s ! v \<or>
              (v \<in> set (column (elements g ! e)) \<and> non_support_neighbors support vn ip v = []))"
proof -
  from visit_corner_interior [OF valid adj sup ok e, of 0 egc] obtain s0 where
    c0: "visit_corner g support False egc vn ip e 0 s = Inr s0" and ok0: "pass1_ok g s0"
    and w0: "elements_in_support s0 = elements_in_support s"
    and d0: "\<forall>v<number_of_vertices g. vertex_is_dof s0 ! v \<longleftrightarrow>
              vertex_is_dof s ! v \<or>
              (v = column (elements g ! e) ! 0 \<and> non_support_neighbors support vn ip v = [])"
    by auto
  from visit_corner_interior [OF valid adj sup ok0 e, of 1 egc] obtain s1 where
    c1: "visit_corner g support False egc vn ip e 1 s0 = Inr s1" and ok1: "pass1_ok g s1"
    and w1: "elements_in_support s1 = elements_in_support s0"
    and d1: "\<forall>v<number_of_vertices g. vertex_is_dof s1 ! v \<longleftrightarrow>
              vertex_is_dof s0 ! v \<or>
              (v = column (elements g ! e) ! 1 \<and> non_support_neighbors support vn ip v = [])"
    by auto
  from visit_corner_interior [OF valid adj sup ok1 e, of 2 egc] obtain s2 where
    c2: "visit_corner g support False egc vn ip e 2 s1 = Inr s2" and ok2: "pass1_ok g s2"
    and w2: "elements_in_support s2 = elements_in_support s1"
    and d2: "\<forall>v<number_of_vertices g. vertex_is_dof s2 ! v \<longleftrightarrow>
              vertex_is_dof s1 ! v \<or>
              (v = column (elements g ! e) ! 2 \<and> non_support_neighbors support vn ip v = [])"
    by auto
  have run: "visit_element g support False egc vn ip e s = Inr s2"
    using c0 c1 c2 by (simp add: visit_element_def)
  obtain a b c where t: "elements g ! e = (a, b, c)" by (cases "elements g ! e")
  have "vertex_is_dof s2 ! v \<longleftrightarrow>
      vertex_is_dof s ! v \<or>
      (v \<in> set (column (elements g ! e)) \<and> non_support_neighbors support vn ip v = [])"
    if "v < number_of_vertices g" for v
    using d0 d1 d2 that by (auto simp: t)
  with run ok2 w0 w1 w2 show ?thesis by auto
qed

lemma first_pass_interior:
  assumes valid: "valid_grid g" and adj: "adjacency_ok g vn ip"
    and sup: "length support = number_of_elements g"
  shows "pass1_ok g s \<Longrightarrow> \<forall>e\<in>set (elements_in_support s). e < number_of_elements g \<Longrightarrow>
     \<exists>t. first_pass g support False egc vn ip i s = Some (Inr t) \<and>
       elements_in_support t = elements_in_support s \<and>
       (\<forall>v<number_of_vertices g. vertex_is_dof t ! v \<longleftrightarrow>
          vertex_is_dof s ! v \<or>
          (\<exists>j. i \<le> j \<and> j < length (elements_in_support s) \<and>
               v \<in> set (column (elements g ! (elements_in_support s ! j))) \<and>
               non_support_neighbors support vn ip v = []))"
proof (induction "length (elements_in_support s) - i" arbitrary: i s)
  case 0
  then have "first_pass g support False egc vn ip i s = Some (Inr s)"
    by (subst first_pass.simps) simp
  with 0 show ?case by auto
next
  case (Suc n)
  from Suc.hyps(2) have i: "i < length (elements_in_support s)" by simp
  let ?e = "elements_in_support s ! i"
  from i Suc.prems(2) have e: "?e < number_of_elements g" by simp
  from visit_element_interior [OF valid adj sup Suc.prems(1) e, of egc] obtain t where
    v: "visit_element g support False egc vn ip ?e s = Inr t" and okt: "pass1_ok g t"
    and wt: "elements_in_support t = elements_in_support s"
    and dt: "\<forall>v<number_of_vertices g. vertex_is_dof t ! v \<longleftrightarrow>
              vertex_is_dof s ! v \<or>
              (v \<in> set (column (elements g ! ?e)) \<and> non_support_neighbors support vn ip v = [])"
    by blast
  from Suc.hyps(2) wt have n: "n = length (elements_in_support t) - (i + 1)" by simp
  from Suc.prems(2) wt have wb: "\<forall>e\<in>set (elements_in_support t). e < number_of_elements g" by simp
  from Suc.hyps(1) [OF n okt wb] obtain u where
    u: "first_pass g support False egc vn ip (i + 1) t = Some (Inr u)"
    and wu: "elements_in_support u = elements_in_support t"
    and du: "\<forall>v<number_of_vertices g. vertex_is_dof u ! v \<longleftrightarrow>
          vertex_is_dof t ! v \<or>
          (\<exists>j. i + 1 \<le> j \<and> j < length (elements_in_support t) \<and>
               v \<in> set (column (elements g ! (elements_in_support t ! j))) \<and>
               non_support_neighbors support vn ip v = [])"
    by blast
  have run: "first_pass g support False egc vn ip i s = Some (Inr u)"
    by (subst first_pass.simps) (use i v u in simp)
  have "vertex_is_dof u ! v \<longleftrightarrow>
          vertex_is_dof s ! v \<or>
          (\<exists>j. i \<le> j \<and> j < length (elements_in_support s) \<and>
               v \<in> set (column (elements g ! (elements_in_support s ! j))) \<and>
               non_support_neighbors support vn ip v = [])"
    if vb: "v < number_of_vertices g" for v
  proof
    assume "vertex_is_dof u ! v"
    with du vb consider "vertex_is_dof t ! v"
      | j where "i + 1 \<le> j" "j < length (elements_in_support t)"
          "v \<in> set (column (elements g ! (elements_in_support t ! j)))"
          "non_support_neighbors support vn ip v = []"
      by blast
    then show "vertex_is_dof s ! v \<or>
          (\<exists>j. i \<le> j \<and> j < length (elements_in_support s) \<and>
               v \<in> set (column (elements g ! (elements_in_support s ! j))) \<and>
               non_support_neighbors support vn ip v = [])"
    proof cases
      case 1
      with dt vb i show ?thesis by blast
    next
      case 2
      then show ?thesis using wt by (intro disjI2 exI [of _ j]) simp
    qed
  next
    assume "vertex_is_dof s ! v \<or>
          (\<exists>j. i \<le> j \<and> j < length (elements_in_support s) \<and>
               v \<in> set (column (elements g ! (elements_in_support s ! j))) \<and>
               non_support_neighbors support vn ip v = [])"
    then consider "vertex_is_dof s ! v"
      | j where "i \<le> j" "j < length (elements_in_support s)"
          "v \<in> set (column (elements g ! (elements_in_support s ! j)))"
          "non_support_neighbors support vn ip v = []"
      by blast
    then show "vertex_is_dof u ! v"
    proof cases
      case 1
      with dt du vb show ?thesis by blast
    next
      case 2
      show ?thesis
      proof (cases "j = i")
        case True
        with 2 dt du vb show ?thesis by blast
      next
        case False
        with 2 have "i + 1 \<le> j" by simp
        with 2 wt du vb show ?thesis by auto
      qed
    qed
  qed
  with run wu wt show ?case by auto
qed

lemma interior_iff:
  assumes adj: "adjacency_ok g vn ip" and v: "v < number_of_vertices g"
  shows "non_support_neighbors support vn ip v = [] \<longleftrightarrow> all_incident_in_support g support v"
proof -
  from adj v have "set (py_slice vn (ip ! v) (ip ! (v + 1))) = set (incident_elements g v)"
    by (simp add: adjacency_ok_def)
  then show ?thesis
    by (auto simp: non_support_neighbors_def all_incident_in_support_def filter_empty_conv)
qed

lemma first_pass_count:
  assumes valid: "valid_grid g" and adj: "adjacency_ok g vn ip"
    and sup: "length support = number_of_elements g"
  shows "\<exists>t. first_pass g support False egc vn ip 0 (initial_pass1 g support) = Some (Inr t) \<and>
           length (flatnonzero (vertex_is_dof t)) = used_fully_supported_vertex_count g support"
proof -
  let ?s = "initial_pass1 g support"
  have w: "elements_in_support ?s = flatnonzero support" by (simp add: initial_pass1_def)
  have wb: "\<forall>e\<in>set (elements_in_support ?s). e < number_of_elements g"
    using sup by (simp add: w set_flatnonzero)
  from first_pass_interior [OF valid adj sup initial_pass1_ok wb, of egc 0] obtain t where
    run: "first_pass g support False egc vn ip 0 ?s = Some (Inr t)"
    and dt: "\<forall>v<number_of_vertices g. vertex_is_dof t ! v \<longleftrightarrow>
          vertex_is_dof ?s ! v \<or>
          (\<exists>j. 0 \<le> j \<and> j < length (elements_in_support ?s) \<and>
               v \<in> set (column (elements g ! (elements_in_support ?s ! j))) \<and>
               non_support_neighbors support vn ip v = [])"
    by blast
  from valid have nv: "number_of_vertices g \<le> 2 ^ 31" by (simp add: valid_grid_def)
  from first_pass_ok [OF run] nv initial_pass1_ok have "pass1_ok g t" by simp
  then have len: "length (vertex_is_dof t) = number_of_vertices g" by (simp add: pass1_ok_def)
  have char: "vertex_is_dof t ! v \<longleftrightarrow>
      incident_elements g v \<noteq> [] \<and> all_incident_in_support g support v"
    if vb: "v < number_of_vertices g" for v
  proof
    assume "vertex_is_dof t ! v"
    with dt vb obtain j where j: "j < length (flatnonzero support)"
      "v \<in> set (column (elements g ! (flatnonzero support ! j)))"
      "non_support_neighbors support vn ip v = []"
      by (auto simp: initial_pass1_def)
    from j(1) have "flatnonzero support ! j \<in> set (flatnonzero support)" by simp
    then have "flatnonzero support ! j < number_of_elements g"
      using sup by (simp add: set_flatnonzero)
    with j(2) have "flatnonzero support ! j \<in> set (incident_elements g v)"
      by (simp add: incident_elements_iff)
    then have "incident_elements g v \<noteq> []" by auto
    with j(3) interior_iff [OF adj vb] show
      "incident_elements g v \<noteq> [] \<and> all_incident_in_support g support v" by simp
  next
    assume a: "incident_elements g v \<noteq> [] \<and> all_incident_in_support g support v"
    then obtain e where e: "e \<in> set (incident_elements g v)"
      by (cases "incident_elements g v") auto
    with a have "support ! e" by (simp add: all_incident_in_support_def)
    moreover from e have eb: "e < number_of_elements g" "v \<in> set (column (elements g ! e))"
      by (simp_all add: incident_elements_iff)
    ultimately have "e \<in> set (flatnonzero support)" using sup by (simp add: set_flatnonzero)
    then obtain j where "j < length (flatnonzero support)" "flatnonzero support ! j = e"
      by (auto simp: in_set_conv_nth)
    with eb a interior_iff [OF adj vb] dt vb show "vertex_is_dof t ! v"
      by (auto simp: w)
  qed
  have "length (flatnonzero (vertex_is_dof t)) =
      length (filter (\<lambda>v. vertex_is_dof t ! v) [0..<number_of_vertices g])"
    by (simp add: flatnonzero_eq len)
  also have "filter (\<lambda>v. vertex_is_dof t ! v) [0..<number_of_vertices g] =
      filter (\<lambda>v. incident_elements g v \<noteq> [] \<and> all_incident_in_support g support v)
        [0..<number_of_vertices g]"
    by (rule filter_cong) (simp_all add: char)
  finally have "length (flatnonzero (vertex_is_dof t)) = used_fully_supported_vertex_count g support"
    by (simp add: used_fully_supported_vertex_count_def)
  with run show ?thesis by blast
qed

text \<open>
  C4 as stated fails on a grid with a vertex that belongs to no element. On
  \<open>mesh_iso\<close> with full support all incident elements of all four vertices are in
  the support (vertex 3 has none), yet the construction flags the three corners of the
  triangle only and \<open>global_dof_count\<close> is 3.
\<close>

theorem isolated_vertex_not_counted:
  "p1_continuous_locals mesh_iso [True] False False =
     Some (Inr (\<lparr> elements_in_support = [0], local2global = [[0, 1, 2]],
                   vertex_is_dof = [True, True, True, False] \<rparr>,
                3,
                \<lparr> support_final = [True], local2global_final = [[0, 1, 2]],
                   local_multipliers = [[1, 1, 1]] \<rparr>)) \<and>
   fully_supported_vertex_count mesh_iso [True] = 4"
  by code_simp

text \<open>
  C4, amended. On a valid grid, with a support mask of the length of the grid and
  \<open>include_boundary_dofs = False\<close>, the construction returns and
  \<open>global_dof_count\<close> is the number of vertices that belong to at least one element
  and whose incident elements are all in the support. On the two triangles of
  \<open>mesh2\<close> with full support it is 4, vertex \<open>v\<close> has DOF \<open>v\<close>, and every
  multiplier is 1.
\<close>

theorem interior_vertex_count:
  "(valid_grid grid \<longrightarrow> length support = number_of_elements grid \<longrightarrow>
      (\<exists>s s2. p1_continuous_locals grid support False ensure_global_continuity =
          Some (Inr (s, used_fully_supported_vertex_count grid support, s2)))) \<and>
   p1_continuous_locals mesh2 [True, True] False False =
     Some (Inr (\<lparr> elements_in_support = [0, 1], local2global = [[0, 1, 2], [1, 2, 3]],
                   vertex_is_dof = [True, True, True, True] \<rparr>,
                4,
                \<lparr> support_final = [True, True], local2global_final = [[0, 1, 2], [1, 2, 3]],
                   local_multipliers = [[1, 1, 1], [1, 1, 1]] \<rparr>))"
proof (intro conjI impI)
  assume valid: "valid_grid grid" and sup: "length support = number_of_elements grid"
  from constructor_adjacency [OF valid] obtain ls where
    ls: "collect_neighbors 0 (elements grid) (replicate (number_of_vertices grid) []) = Inr ls"
    and adj: "adjacency_ok grid (fst (serialise_list_of_lists ls)) (snd (serialise_list_of_lists ls))"
    by blast
  from first_pass_count [OF valid adj sup, of ensure_global_continuity] obtain t where
    run: "first_pass grid support False ensure_global_continuity
            (fst (serialise_list_of_lists ls)) (snd (serialise_list_of_lists ls)) 0
            (initial_pass1 grid support) = Some (Inr t)"
    and count: "length (flatnonzero (vertex_is_dof t)) = used_fully_supported_vertex_count grid support"
    by blast
  from valid have nv: "number_of_vertices grid \<le> 2 ^ 31" by (simp add: valid_grid_def)
  from locals_after_first_pass [OF nv run] count obtain s2 where
    "compute_p1_dof_map_locals grid support False ensure_global_continuity
       (fst (serialise_list_of_lists ls)) (snd (serialise_list_of_lists ls)) =
     Some (Inr (t, used_fully_supported_vertex_count grid support, s2))"
    by auto
  then have "p1_continuous_locals grid support False ensure_global_continuity =
      Some (Inr (t, used_fully_supported_vertex_count grid support, s2))"
    by (auto simp: p1_continuous_locals_def ls split: prod.splits)
  then show "\<exists>s s2. p1_continuous_locals grid support False ensure_global_continuity =
          Some (Inr (s, used_fully_supported_vertex_count grid support, s2))"
    by blast
next
  show "p1_continuous_locals mesh2 [True, True] False False =
     Some (Inr (\<lparr> elements_in_support = [0, 1], local2global = [[0, 1, 2], [1, 2, 3]],
                   vertex_is_dof = [True, True, True, True] \<rparr>,
                4,
                \<lparr> support_final = [True, True], local2global_final = [[0, 1, 2], [1, 2, 3]],
                   local_multipliers = [[1, 1, 1], [1, 1, 1]] \<rparr>))"
    by code_simp
qed

theorem interior_vertex_count_witness:
  "(\<exists>s s2. p1_continuous_locals mesh_iso [True] False True =
      Some (Inr (s, used_fully_supported_vertex_count mesh_iso [True], s2))) \<and>
   used_fully_supported_vertex_count mesh_iso [True] = 3"
proof -
  have valid: "valid_grid mesh_iso" by (simp add: valid_grid_def mesh_iso_def)
  have sup: "length [True] = number_of_elements mesh_iso"
    by (simp add: number_of_elements_def mesh_iso_def)
  have three: "used_fully_supported_vertex_count mesh_iso [True] = 3" by code_simp
  from interior_vertex_count [of mesh_iso "[True]" True] valid sup three show ?thesis by blast
qed

section \<open>The traversal with continuity extension, on every valid grid\<close>

lemma write_neighbors_total:
  "length l2g = number_of_elements g \<Longrightarrow> \<forall>row\<in>set l2g. length row = 3 \<Longrightarrow>
     \<forall>en\<in>set ens. en < number_of_elements g \<and> v \<in> set (column (elements g ! en)) \<Longrightarrow>
     \<exists>l2g'. write_neighbors g v ens l2g = Inr l2g'"
proof (induction ens arbitrary: l2g)
  case Nil
  then show ?case by simp
next
  case (Cons en ens)
  from Cons.prems have en: "en < length (elements g)" "en < length l2g"
    and v: "v \<in> set (column (elements g ! en))"
    by (simp_all add: number_of_elements_def)
  let ?k = "find_index (column (elements g ! en)) v"
  from find_index_present [OF v] have k: "0 \<le> ?k" "?k < 3" by simp_all
  from en Cons.prems(2) have r3: "length (l2g ! en) = 3" by simp
  let ?m = "l2g[en := (l2g ! en)[nat ?k := int32_of (int v)]]"
  from k have "?k = int (nat ?k)" "nat ?k < 3" by simp_all
  then have set2: "setitem2 l2g (int en) ?k (int32_of (int v)) = Inr ?m"
    using en r3 by (metis setitem2_nat)
  have rows: "\<forall>row\<in>set ?m. length row = 3"
    using Cons.prems(2) r3 by (auto dest!: in_set_update_row)
  from Cons.IH [OF _ rows] Cons.prems obtain l2g' where
    "write_neighbors g v ens ?m = Inr l2g'" by auto
  with en set2 show ?case by simp
qed

lemma non_support_neighbors_facts:
  assumes adj: "adjacency_ok g vn ip" and v: "v < number_of_vertices g"
    and n: "n \<in> set (non_support_neighbors support vn ip v)"
  shows "n < number_of_elements g" "v \<in> set (column (elements g ! n))" "\<not> support ! n"
proof -
  from adj v have "set (py_slice vn (ip ! v) (ip ! (v + 1))) = set (incident_elements g v)"
    by (simp add: adjacency_ok_def)
  with n show "n < number_of_elements g" "v \<in> set (column (elements g ! n))" "\<not> support ! n"
    by (auto simp: non_support_neighbors_def incident_elements_iff)
qed

lemma visit_corner_both:
  assumes valid: "valid_grid g" and adj: "adjacency_ok g vn ip"
    and sup: "length support = number_of_elements g"
    and ok: "pass1_ok g s" and e: "e < number_of_elements g" and l: "l < 3"
  shows "\<exists>t. visit_corner g support True True vn ip e l s = Inr t \<and> pass1_ok g t \<and>
           elements_in_support t = elements_in_support s @
             non_support_neighbors support vn ip (column (elements g ! e) ! l)"
proof -
  let ?v = "column (elements g ! e) ! l"
  let ?N = "non_support_neighbors support vn ip ?v"
  let ?m = "(local2global s)[e := (local2global s ! e)[l := int32_of (int ?v)]]"
  from valid have nv: "number_of_vertices g \<le> 2 ^ 31" by (simp add: valid_grid_def)
  note steps = visit_corner_steps [OF valid adj sup ok e l, of True True]
  show ?thesis
  proof (cases "?N = []")
    case True
    with steps have run: "visit_corner g support True True vn ip e l s =
        Inr (s\<lparr>local2global := ?m, vertex_is_dof := (vertex_is_dof s)[?v := True]\<rparr>)"
      by simp
    from visit_corner_ok [OF nv ok run] True run show ?thesis by simp
  next
    case False
    from corner_in_range(1) [OF valid e l] have v: "?v < number_of_vertices g" .
    from pass1_ok_shapes [OF ok e] have len: "length ?m = number_of_elements g" by simp
    have rows: "\<forall>row\<in>set ?m. length row = 3"
    proof
      fix row assume "row \<in> set ?m"
      then have "row = (local2global s ! e)[l := int32_of (int ?v)] \<or> row \<in> set (local2global s)"
        by (rule in_set_update_row)
      then show "length row = 3"
        using ok pass1_ok_shapes(3) [OF ok e] by (auto simp: pass1_ok_def)
    qed
    have "\<forall>en\<in>set ?N. en < number_of_elements g \<and> ?v \<in> set (column (elements g ! en))"
      using non_support_neighbors_facts [OF adj v] by blast
    from write_neighbors_total [OF len rows this] obtain l2g' where
      w: "write_neighbors g ?v ?N ?m = Inr l2g'" by blast
    with steps False have run: "visit_corner g support True True vn ip e l s =
        Inr (s\<lparr>vertex_is_dof := (vertex_is_dof s)[?v := True],
               elements_in_support := elements_in_support s @ ?N,
               local2global := l2g'\<rparr>)"
      by simp
    from visit_corner_ok [OF nv ok run] run show ?thesis by simp
  qed
qed

lemma visit_element_both:
  assumes valid: "valid_grid g" and adj: "adjacency_ok g vn ip"
    and sup: "length support = number_of_elements g"
    and ok: "pass1_ok g s" and e: "e < number_of_elements g"
  shows "\<exists>t. visit_element g support True True vn ip e s = Inr t \<and> pass1_ok g t \<and>
           elements_in_support t = elements_in_support s @ extension g support vn ip e"
proof -
  from visit_corner_both [OF valid adj sup ok e, of 0] obtain s0 where
    c0: "visit_corner g support True True vn ip e 0 s = Inr s0" and ok0: "pass1_ok g s0"
    and w0: "elements_in_support s0 = elements_in_support s @
             non_support_neighbors support vn ip (column (elements g ! e) ! 0)"
    by auto
  from visit_corner_both [OF valid adj sup ok0 e, of 1] obtain s1 where
    c1: "visit_corner g support True True vn ip e 1 s0 = Inr s1" and ok1: "pass1_ok g s1"
    and w1: "elements_in_support s1 = elements_in_support s0 @
             non_support_neighbors support vn ip (column (elements g ! e) ! 1)"
    by auto
  from visit_corner_both [OF valid adj sup ok1 e, of 2] obtain s2 where
    c2: "visit_corner g support True True vn ip e 2 s1 = Inr s2" and ok2: "pass1_ok g s2"
    and w2: "elements_in_support s2 = elements_in_support s1 @
             non_support_neighbors support vn ip (column (elements g ! e) ! 2)"
    by auto
  have "visit_element g support True True vn ip e s = Inr s2"
    using c0 c1 c2 by (simp add: visit_element_def)
  moreover have "elements_in_support s2 = elements_in_support s @ extension g support vn ip e"
    using w0 w1 w2 by (simp add: extension_def)
  ultimately show ?thesis using ok2 by blast
qed

lemma extension_facts:
  assumes valid: "valid_grid g" and adj: "adjacency_ok g vn ip"
    and e: "e < number_of_elements g" and n: "n \<in> set (extension g support vn ip e)"
  shows "n < number_of_elements g" "\<not> support ! n"
proof -
  from n have "\<exists>l<3. n \<in> set (non_support_neighbors support vn ip (column (elements g ! e) ! l))"
    unfolding extension_def set_append Un_iff
    by (elim disjE) (rule exI [of _ 0], simp, rule exI [of _ 1], simp, rule exI [of _ 2], simp)
  then obtain l where l: "l < 3"
    and m: "n \<in> set (non_support_neighbors support vn ip (column (elements g ! e) ! l))"
    by blast
  from non_support_neighbors_facts [OF adj corner_in_range(1) [OF valid e l] m]
  show "n < number_of_elements g" "\<not> support ! n" by simp_all
qed

lemma outside_element_extends:
  assumes valid: "valid_grid g" and adj: "adjacency_ok g vn ip"
    and n: "n < number_of_elements g" "\<not> support ! n"
  shows "extension g support vn ip n \<noteq> []"
proof -
  let ?v = "column (elements g ! n) ! 0"
  from corner_in_range [OF valid n(1), of 0] have v: "?v < number_of_vertices g"
    "?v \<in> set (column (elements g ! n))" by simp_all
  from adj v(1) have "set (py_slice vn (ip ! ?v) (ip ! (?v + 1))) = set (incident_elements g ?v)"
    by (simp add: adjacency_ok_def)
  with n v(2) have "n \<in> set (non_support_neighbors support vn ip ?v)"
    by (simp add: non_support_neighbors_def incident_elements_iff)
  then show ?thesis by (auto simp: extension_def)
qed

lemma feeding_step:
  assumes valid: "valid_grid g" and adj: "adjacency_ok g vn ip"
    and sup: "length support = number_of_elements g"
    and f: "feeding g support vn ip i s"
  shows "i < length (elements_in_support s) \<and>
         (\<exists>t. visit_element g support True True vn ip (elements_in_support s ! i) s = Inr t \<and>
              feeding g support vn ip (i + 1) t)"
proof -
  from f obtain j where ok: "pass1_ok g s"
    and wb: "\<forall>e\<in>set (elements_in_support s). e < number_of_elements g"
    and j: "i \<le> j" "j < length (elements_in_support s)"
      "extension g support vn ip (elements_in_support s ! j) \<noteq> []"
    by (auto simp: feeding_def)
  from j have i: "i < length (elements_in_support s)" by simp
  let ?e = "elements_in_support s ! i"
  from i wb have e: "?e < number_of_elements g" by simp
  from visit_element_both [OF valid adj sup ok e] obtain t where
    run: "visit_element g support True True vn ip ?e s = Inr t" and okt: "pass1_ok g t"
    and wt: "elements_in_support t = elements_in_support s @ extension g support vn ip ?e"
    by blast
  have wbt: "\<forall>x\<in>set (elements_in_support t). x < number_of_elements g"
    using wb wt extension_facts(1) [OF valid adj e] by auto
  have "\<exists>k\<ge>i + 1. k < length (elements_in_support t) \<and>
          extension g support vn ip (elements_in_support t ! k) \<noteq> []"
  proof (cases "j = i")
    case False
    with j have "i + 1 \<le> j" "j < length (elements_in_support t)"
      "elements_in_support t ! j = elements_in_support s ! j"
      by (simp_all add: wt nth_append)
    with j(3) show ?thesis by (intro exI [of _ j]) simp
  next
    case True
    with j(3) obtain n where n: "n \<in> set (extension g support vn ip ?e)"
      by (cases "extension g support vn ip ?e") auto
    then obtain k where k: "k < length (extension g support vn ip ?e)"
      "extension g support vn ip ?e ! k = n"
      by (auto simp: in_set_conv_nth)
    from extension_facts [OF valid adj e n] have "extension g support vn ip n \<noteq> []"
      by (intro outside_element_extends [OF valid adj]) 
    with k i show ?thesis
      by (intro exI [of _ "length (elements_in_support s) + k"]) (simp add: wt nth_append)
  qed
  with okt wbt have "feeding g support vn ip (i + 1) t" by (simp add: feeding_def)
  with i run show ?thesis by blast
qed

lemma feeding_never_returns:
  assumes run: "first_pass g support ibd egc vn ip i s = Some r"
  shows "\<not> (valid_grid g \<and> adjacency_ok g vn ip \<and> length support = number_of_elements g \<and>
            ibd \<and> egc \<and> feeding g support vn ip i s)"
proof (rule first_pass.raw_induct [where P = "\<lambda>g support ibd egc vn ip i s r.
         \<not> (valid_grid g \<and> adjacency_ok g vn ip \<and> length support = number_of_elements g \<and>
            ibd \<and> egc \<and> feeding g support vn ip i s)", OF _ run])
  fix f :: "grid_data \<Rightarrow> bool list \<Rightarrow> bool \<Rightarrow> bool \<Rightarrow> nat list \<Rightarrow> nat list \<Rightarrow> nat \<Rightarrow> pass1
     \<Rightarrow> (error + pass1) option"
    and g support ibd egc vn ip i s r
  assume IH: "\<And>g support ibd egc vn ip i s r. f g support ibd egc vn ip i s = Some r \<Longrightarrow>
         \<not> (valid_grid g \<and> adjacency_ok g vn ip \<and> length support = number_of_elements g \<and>
            ibd \<and> egc \<and> feeding g support vn ip i s)"
    and body: "(if i < length (elements_in_support s) then
        (case visit_element g support ibd egc vn ip (elements_in_support s ! i) s of
           Inl e \<Rightarrow> Some (Inl e)
         | Inr s' \<Rightarrow> f g support ibd egc vn ip (i + 1) s')
      else Some (Inr s)) = Some r"
  show "\<not> (valid_grid g \<and> adjacency_ok g vn ip \<and> length support = number_of_elements g \<and>
            ibd \<and> egc \<and> feeding g support vn ip i s)"
  proof
    assume a: "valid_grid g \<and> adjacency_ok g vn ip \<and> length support = number_of_elements g \<and>
            ibd \<and> egc \<and> feeding g support vn ip i s"
    then have flags: "ibd = True" "egc = True" by simp_all
    from a feeding_step [of g vn ip support i s] obtain t where
      i: "i < length (elements_in_support s)"
      and v: "visit_element g support True True vn ip (elements_in_support s ! i) s = Inr t"
      and ft: "feeding g support vn ip (i + 1) t" by blast
    from body i v flags have "f g support ibd egc vn ip (i + 1) t = Some r" by simp
    from IH [OF this] a ft show False by simp
  qed
qed

text \<open>
  On a valid grid, with both flags set, the constructor returns nothing as soon as one
  corner of one support element has a neighbour outside the support: the appended
  element is outside the support, it is a neighbour of its own corners, and visiting it
  appends it again.
\<close>

lemma extension_diverges:
  assumes valid: "valid_grid grid" and sup: "length support = number_of_elements grid"
    and e: "e < number_of_elements grid" "support ! e" and l: "l < 3"
    and out: "\<not> all_incident_in_support grid support (column (elements grid ! e) ! l)"
  shows "p1_continuous_function_space grid support normal_multipliers True True = None"
proof -
  from constructor_adjacency [OF valid] obtain ls where
    ls: "collect_neighbors 0 (elements grid) (replicate (number_of_vertices grid) []) = Inr ls"
    and adj: "adjacency_ok grid (fst (serialise_list_of_lists ls)) (snd (serialise_list_of_lists ls))"
    by blast
  let ?vn = "fst (serialise_list_of_lists ls)" and ?ip = "snd (serialise_list_of_lists ls)"
  let ?s = "initial_pass1 grid support"
  have w: "elements_in_support ?s = flatnonzero support" by (simp add: initial_pass1_def)
  from e sup have "e \<in> set (flatnonzero support)" by (simp add: set_flatnonzero)
  then obtain j where j: "j < length (flatnonzero support)" "flatnonzero support ! j = e"
    by (auto simp: in_set_conv_nth)
  from out interior_iff [OF adj corner_in_range(1) [OF valid e(1) l], of support]
  have "non_support_neighbors support ?vn ?ip (column (elements grid ! e) ! l) \<noteq> []" by simp
  with three_cases [OF l] have "extension grid support ?vn ?ip e \<noteq> []"
    by (auto simp: extension_def)
  with j have "\<exists>k\<ge>0. k < length (elements_in_support ?s) \<and>
      extension grid support ?vn ?ip (elements_in_support ?s ! k) \<noteq> []"
    by (intro exI [of _ j]) (simp add: w)
  moreover have "\<forall>x\<in>set (elements_in_support ?s). x < number_of_elements grid"
    using sup by (simp add: w set_flatnonzero)
  ultimately have "feeding grid support ?vn ?ip 0 ?s"
    using initial_pass1_ok by (simp add: feeding_def)
  with feeding_never_returns [of grid support True True ?vn ?ip 0 ?s] valid adj sup
  have "first_pass grid support True True ?vn ?ip 0 ?s = None"
    by (cases "first_pass grid support True True ?vn ?ip 0 ?s") auto
  then have "compute_p1_dof_map grid support True True ?vn ?ip = None"
    by (simp add: compute_p1_dof_map_def compute_p1_dof_map_locals_def)
  then show ?thesis
    by (auto simp: p1_continuous_function_space_def ls split: prod.splits)
qed

text \<open>
  Conversely, a call with both flags set that returns at all (with a space or with an
  error) has met no corner of a support element with a neighbour outside the support:
  no returned space has a DOF that the continuity extension put on an element outside
  its mask.
\<close>

lemma returned_means_no_extension:
  assumes valid: "valid_grid grid" and sup: "length support = number_of_elements grid"
    and run: "p1_continuous_function_space grid support normal_multipliers True True = Some r"
    and e: "e < number_of_elements grid" "support ! e" and l: "l < 3"
  shows "all_incident_in_support grid support (column (elements grid ! e) ! l)"
proof (rule ccontr)
  assume "\<not> all_incident_in_support grid support (column (elements grid ! e) ! l)"
  from extension_diverges [OF valid sup e l this, of normal_multipliers] run show False by simp
qed

section \<open>C10: the support mask under continuity extension\<close>



end
